theory Spec2Isabelle
  imports Main
begin

section \<open>Text\<close>

text \<open>
  A Python \<open>str\<close> is a sequence of Unicode code points, so a string is a list of
  naturals. The gazette text is French: its letters lie in U+0000..U+00FF, and the
  character tables below are the Unicode ones for that range. Above U+00FF the tables
  hold the white space characters (all of them) and the code points whose lower case
  is a letter of that range; other code points above U+00FF count as symbols
  (no word character, no digit, no case), which is what the dash U+2014 of the
  article pattern is.
\<close>

type_synonym str = "nat list"

definition ascii :: "string \<Rightarrow> str" where
  "ascii s = map of_char s"

text \<open>The characters \<open>str.isspace\<close>, \<open>str.strip()\<close> and the class \<open>\s\<close> accept.\<close>

definition is_space :: "nat \<Rightarrow> bool" where
  "is_space c \<longleftrightarrow>
     (9 \<le> c \<and> c \<le> 13) \<or> (28 \<le> c \<and> c \<le> 32) \<or> c = 133 \<or> c = 160 \<or> c = 5760 \<or>
     (8192 \<le> c \<and> c \<le> 8202) \<or> c = 8232 \<or> c = 8233 \<or> c = 8239 \<or> c = 8287 \<or> c = 12288"

text \<open>The class \<open>\d\<close>: decimal digits.\<close>

definition is_digit :: "nat \<Rightarrow> bool" where
  "is_digit c \<longleftrightarrow> 48 \<le> c \<and> c \<le> 57"

text \<open>The class \<open>\w\<close>: alphanumeric characters and the underscore.\<close>

definition is_word :: "nat \<Rightarrow> bool" where
  "is_word c \<longleftrightarrow>
     is_digit c \<or> (65 \<le> c \<and> c \<le> 90) \<or> c = 95 \<or> (97 \<le> c \<and> c \<le> 122) \<or>
     c = 170 \<or> c = 178 \<or> c = 179 \<or> c = 181 \<or> c = 185 \<or> c = 186 \<or>
     (188 \<le> c \<and> c \<le> 190) \<or> (192 \<le> c \<and> c \<le> 214) \<or> (216 \<le> c \<and> c \<le> 246) \<or>
     (248 \<le> c \<and> c \<le> 255)"

text \<open>The lower case of one code point, as the regular expression engine takes it.\<close>

definition tolower :: "nat \<Rightarrow> nat" where
  "tolower c =
     (if (65 \<le> c \<and> c \<le> 90) \<or> (192 \<le> c \<and> c \<le> 222 \<and> c \<noteq> 215) then c + 32
      else if c = 304 then 105
      else if c = 376 then 255
      else if c = 7838 then 223
      else if c = 8490 then 107
      else if c = 8491 then 229
      else c)"

text \<open>
  Lower case letters that the engine takes for the same letter when it ignores case:
  dotless i with i, long s with s, the Greek mu with the micro sign.
\<close>

definition fixes_of :: "nat \<Rightarrow> nat list" where
  "fixes_of lo = (if lo = 105 then [305] else if lo = 115 then [383] else if lo = 181 then [956] else [])"

text \<open>\<open>str.lower()\<close>: U+0130 becomes two code points.\<close>

definition lower :: "str \<Rightarrow> str" where
  "lower s = concat (map (\<lambda>c. if c = 304 then [105, 775] else [tolower c]) s)"

text \<open>The slice \<open>t[i:j]\<close> for \<open>0 \<le> i\<close> and \<open>0 \<le> j\<close>.\<close>

definition slice :: "str \<Rightarrow> nat \<Rightarrow> nat \<Rightarrow> str" where
  "slice t i j = take (j - i) (drop i t)"

text \<open>\<open>sub in s\<close> on strings.\<close>

fun starts_with :: "str \<Rightarrow> str \<Rightarrow> bool" where
  "starts_with [] s = True"
| "starts_with (p # ps) [] = False"
| "starts_with (p # ps) (c # cs) = (p = c \<and> starts_with ps cs)"

fun contains :: "str \<Rightarrow> str \<Rightarrow> bool" where
  "contains sub [] = (sub = [])"
| "contains sub (c # cs) = (starts_with sub (c # cs) \<or> contains sub cs)"

text \<open>\<open>s.strip()\<close>, \<open>s.lstrip(chars)\<close> and \<open>s.replace('\n', ' ')\<close>.\<close>

definition strip :: "str \<Rightarrow> str" where
  "strip s = rev (dropWhile is_space (rev (dropWhile is_space s)))"

definition lstrip_chars :: "str \<Rightarrow> str \<Rightarrow> str" where
  "lstrip_chars chars s = dropWhile (\<lambda>c. c \<in> set chars) s"

definition replace_newlines :: "str \<Rightarrow> str" where
  "replace_newlines s = map (\<lambda>c. if c = 10 then 32 else c) s"

section \<open>Regular expressions\<close>

text \<open>
  The patterns of \<open>patterns.py\<close> and \<open>parser.py\<close> are compiled by Python's \<open>re\<close>, a
  backtracking matcher. A pattern is a syntax tree; the matcher takes the rest of the
  pattern as a continuation and returns the first success in the order backtracking
  tries the alternatives, which is the match Python reports. The quantifiers of these
  patterns all
  stand on one character (a literal, a class or the dot), except \<open>(?:...)?\<close>,
  which is the alternative of its body and the empty pattern.
\<close>

record flags =
  ignorecase :: bool
  multiline :: bool
  dotall :: bool

datatype citem = CChar nat | CSpace | CWord | CDigit

datatype atom = Chr nat | Cls "citem list" | Dot

datatype rx =
    Atom atom
  | Lit str
  | Rep bool nat atom
  | Seq rx rx
  | Alt rx rx
  | Eps
  | Bol
  | Eol
  | Group string rx
  | Look rx

type_synonym caps = "(string \<times> nat \<times> nat) list"

definition lit_ok :: "flags \<Rightarrow> nat \<Rightarrow> nat \<Rightarrow> bool" where
  "lit_ok fl p c =
     (if ignorecase fl
      then tolower c = tolower p \<or> tolower c \<in> set (fixes_of (tolower p))
      else c = p)"

fun citem_ok :: "flags \<Rightarrow> citem \<Rightarrow> nat \<Rightarrow> bool" where
  "citem_ok fl (CChar p) c = lit_ok fl p c"
| "citem_ok fl CSpace c = is_space c"
| "citem_ok fl CWord c = is_word (if ignorecase fl then tolower c else c)"
| "citem_ok fl CDigit c = is_digit c"

fun atom_ok :: "flags \<Rightarrow> atom \<Rightarrow> nat \<Rightarrow> bool" where
  "atom_ok fl (Chr p) c = lit_ok fl p c"
| "atom_ok fl (Cls items) c = list_ex (\<lambda>i. citem_ok fl i c) items"
| "atom_ok fl Dot c = (dotall fl \<or> c \<noteq> 10)"

text \<open>
  The matcher walks the text. Its state is the position, the character before the
  position (none at the start of the text), the rest of the text from the position
  on, and the spans of the groups captured so far.
\<close>

datatype mstate = St (m_pos: nat) (m_prev: "nat option") (m_rest: str) (m_caps: caps)

fun lit_match :: "flags \<Rightarrow> str \<Rightarrow> mstate \<Rightarrow> mstate option" where
  "lit_match fl [] st = Some st"
| "lit_match fl (x # xs) (St p pv [] cs) = None"
| "lit_match fl (x # xs) (St p pv (c # r) cs) =
     (if lit_ok fl x c then lit_match fl xs (St (p + 1) (Some c) r cs) else None)"

text \<open>
  \<open>a{m,}?\<close> (lazy) tries the rest of the pattern, the continuation \<open>k\<close>, before it
  takes one more character; \<open>a{m,}\<close> (greedy) takes all the characters it can and
  gives them back one by one.
\<close>

function (sequential) rep_lazy :: "flags \<Rightarrow> atom \<Rightarrow> (mstate \<Rightarrow> 'a option) \<Rightarrow> nat \<Rightarrow> mstate \<Rightarrow> 'a option" where
  "rep_lazy fl a k m (St p pv [] cs) = (if m = 0 then k (St p pv [] cs) else None)"
| "rep_lazy fl a k m (St p pv (c # r) cs) =
     (case (if m = 0 then k (St p pv (c # r) cs) else None) of
        Some x \<Rightarrow> Some x
      | None \<Rightarrow>
          if atom_ok fl a c then rep_lazy fl a k (m - 1) (St (p + 1) (Some c) r cs) else None)"
  by pat_completeness auto
termination
  by (relation "measure (\<lambda>(fl, a, k, m, st). length (m_rest st))") auto

function (sequential) rep_greedy :: "flags \<Rightarrow> atom \<Rightarrow> (mstate \<Rightarrow> 'a option) \<Rightarrow> nat \<Rightarrow> mstate \<Rightarrow> 'a option" where
  "rep_greedy fl a k m (St p pv [] cs) = (if m = 0 then k (St p pv [] cs) else None)"
| "rep_greedy fl a k m (St p pv (c # r) cs) =
     (case (if atom_ok fl a c then rep_greedy fl a k (m - 1) (St (p + 1) (Some c) r cs) else None) of
        Some x \<Rightarrow> Some x
      | None \<Rightarrow> if m = 0 then k (St p pv (c # r) cs) else None)"
  by pat_completeness auto
termination
  by (relation "measure (\<lambda>(fl, a, k, m, st). length (m_rest st))") auto

text \<open>
  \<open>rxk fl r k st\<close>: match \<open>r\<close> from the state \<open>st\<close>, then the continuation \<open>k\<close>;
  the first success in the order of backtracking. \<open>Rep greedy m a\<close> is \<open>a{m,}\<close> or
  \<open>a{m,}?\<close>, \<open>Bol\<close> is \<open>^\<close>, \<open>Eol\<close> is \<open>$\<close>, \<open>Look\<close> a positive lookahead.
\<close>

primrec rxk :: "flags \<Rightarrow> rx \<Rightarrow> (mstate \<Rightarrow> mstate option) \<Rightarrow> mstate \<Rightarrow> mstate option" where
  "rxk fl (Atom a) k st =
     (case m_rest st of
        [] \<Rightarrow> None
      | c # r \<Rightarrow> if atom_ok fl a c then k (St (m_pos st + 1) (Some c) r (m_caps st)) else None)"
| "rxk fl (Lit s) k st = (case lit_match fl s st of None \<Rightarrow> None | Some st' \<Rightarrow> k st')"
| "rxk fl (Rep greedy m a) k st = (if greedy then rep_greedy fl a k m st else rep_lazy fl a k m st)"
| "rxk fl (Seq a b) k st = rxk fl a (rxk fl b k) st"
| "rxk fl (Alt a b) k st = (case rxk fl a k st of Some x \<Rightarrow> Some x | None \<Rightarrow> rxk fl b k st)"
| "rxk fl Eps k st = k st"
| "rxk fl Bol k st =
     (if m_prev st = None \<or> (multiline fl \<and> m_prev st = Some 10) then k st else None)"
| "rxk fl Eol k st =
     (case m_rest st of
        [] \<Rightarrow> k st
      | c # r \<Rightarrow> if c = 10 \<and> (multiline fl \<or> r = []) then k st else None)"
| "rxk fl (Group n r) k st =
     rxk fl r (\<lambda>e. k (St (m_pos e) (m_prev e) (m_rest e) ((n, m_pos st, m_pos e) # m_caps e))) st"
| "rxk fl (Look r) k st =
     (case rxk fl r Some st of
        None \<Rightarrow> None
      | Some e \<Rightarrow> k (St (m_pos st) (m_prev st) (m_rest st) (m_caps e)))"

text \<open>Sequences and alternatives of several patterns.\<close>

fun cat :: "rx list \<Rightarrow> rx" where
  "cat [] = Eps"
| "cat [r] = r"
| "cat (r # rs) = Seq r (cat rs)"

fun alts :: "rx list \<Rightarrow> rx" where
  "alts [] = Eps"
| "alts [r] = r"
| "alts (r # rs) = Alt r (alts rs)"

definition opt :: "rx \<Rightarrow> rx" where
  "opt r = Alt r Eps"

text \<open>
  The match that starts at the state \<open>St p pv r []\<close>, as its end state. After an
  empty match the engine asks the next match at the same position to be longer
  (\<open>adv\<close>).
\<close>

definition match_at :: "flags \<Rightarrow> rx \<Rightarrow> bool \<Rightarrow> nat \<Rightarrow> nat option \<Rightarrow> str \<Rightarrow> mstate option" where
  "match_at fl r adv p pv rs =
     rxk fl r (\<lambda>e. if adv \<and> m_pos e = p then None else Some e) (St p pv rs [])"

text \<open>The leftmost match from a position on: its start and its end state.\<close>

fun scan :: "flags \<Rightarrow> rx \<Rightarrow> bool \<Rightarrow> nat \<Rightarrow> nat option \<Rightarrow> str \<Rightarrow> (nat \<times> mstate) option" where
  "scan fl r adv p pv [] =
     (case match_at fl r adv p pv [] of Some e \<Rightarrow> Some (p, e) | None \<Rightarrow> None)"
| "scan fl r adv p pv (c # rs) =
     (case match_at fl r adv p pv (c # rs) of
        Some e \<Rightarrow> Some (p, e)
      | None \<Rightarrow> scan fl r False (p + 1) (Some c) rs)"

text \<open>\<open>pattern.search(t)\<close>.\<close>

definition re_search :: "flags \<Rightarrow> rx \<Rightarrow> str \<Rightarrow> (nat \<times> mstate) option" where
  "re_search fl r t = scan fl r False 0 None t"

text \<open>The start, the end and the groups of a match.\<close>

definition m_start :: "nat \<times> mstate \<Rightarrow> nat" where
  "m_start m = fst m"

definition m_end :: "nat \<times> mstate \<Rightarrow> nat" where
  "m_end m = m_pos (snd m)"

definition m_groups :: "nat \<times> mstate \<Rightarrow> caps" where
  "m_groups m = m_caps (snd m)"

text \<open>
  \<open>pattern.finditer(t)\<close>: the matches from left to right, each search starting where
  the last match ended.
\<close>

function finditer_from :: "flags \<Rightarrow> rx \<Rightarrow> bool \<Rightarrow> mstate \<Rightarrow> (nat \<times> mstate) list" where
  "finditer_from fl r adv st =
     (case scan fl r adv (m_pos st) (m_prev st) (m_rest st) of
        None \<Rightarrow> []
      | Some m \<Rightarrow> m # finditer_from fl r (m_end m = m_start m) (snd m))"
  by pat_completeness auto

text \<open>The names of the groups of a pattern.\<close>

primrec gnames :: "rx \<Rightarrow> string set" where
  "gnames (Atom a) = {}"
| "gnames (Lit s) = {}"
| "gnames (Rep g m a) = {}"
| "gnames (Seq a b) = gnames a \<union> gnames b"
| "gnames (Alt a b) = gnames a \<union> gnames b"
| "gnames Eps = {}"
| "gnames Bol = {}"
| "gnames Eol = {}"
| "gnames (Group n r) = insert n (gnames r)"
| "gnames (Look r) = gnames r"

text \<open>
  A match moves the state forward in the text and adds captures of the pattern's groups
  only.
\<close>

definition reach :: "string set \<Rightarrow> mstate \<Rightarrow> mstate \<Rightarrow> bool" where
  "reach G st st' \<longleftrightarrow>
     (\<exists>n\<le>length (m_rest st). m_pos st' = m_pos st + n \<and> m_rest st' = drop n (m_rest st)) \<and>
     fst ` set (m_caps st') \<subseteq> fst ` set (m_caps st) \<union> G"

lemma reach_refl: "reach G st st"
  unfolding reach_def by (intro conjI exI[of _ 0]) auto

lemma reach_trans: "reach G1 a b \<Longrightarrow> reach G2 b c \<Longrightarrow> reach (G1 \<union> G2) a c"
  unfolding reach_def
proof (elim conjE exE, intro conjI)
  fix n m
  assume n: "n \<le> length (m_rest a)" "m_pos b = m_pos a + n" "m_rest b = drop n (m_rest a)"
    and m: "m \<le> length (m_rest b)" "m_pos c = m_pos b + m" "m_rest c = drop m (m_rest b)"
  show "\<exists>n\<le>length (m_rest a). m_pos c = m_pos a + n \<and> m_rest c = drop n (m_rest a)"
    using n m by (intro exI[of _ "n + m"]) (auto simp: add.commute)
next
  assume "fst ` set (m_caps b) \<subseteq> fst ` set (m_caps a) \<union> G1"
    "fst ` set (m_caps c) \<subseteq> fst ` set (m_caps b) \<union> G2"
  then show "fst ` set (m_caps c) \<subseteq> fst ` set (m_caps a) \<union> (G1 \<union> G2)" by blast
qed

lemma reach_mono: "reach G a b \<Longrightarrow> G \<subseteq> H \<Longrightarrow> reach H a b"
  unfolding reach_def by blast

lemma reach_step: "reach G (St p pv (c # r) cs) (St (p + 1) (Some c) r cs)"
  unfolding reach_def by (intro conjI exI[of _ 1]) auto

lemma reach_step_trans:
  "reach G (St (p + 1) (Some c) r cs) st' \<Longrightarrow> reach G (St p pv (c # r) cs) st'"
  using reach_trans[OF reach_step[of G p pv c r cs], of G st'] by simp

lemma lit_match_reach: "lit_match fl s st = Some st' \<Longrightarrow> reach {} st st'"
proof (induction fl s st rule: lit_match.induct)
  case (1 fl st)
  then show ?case by (simp add: reach_refl)
next
  case (2 fl x xs p pv cs)
  then show ?case by simp
next
  case (3 fl x xs p pv c r cs)
  then show ?case by (auto split: if_splits intro: reach_step_trans)
qed

lemma rep_lazy_reach:
  "rep_lazy fl a k m st = Some x \<Longrightarrow> \<exists>st'. reach {} st st' \<and> k st' = Some x"
proof (induction fl a k m st rule: rep_lazy.induct)
  case (1 fl a k m p pv cs)
  then show ?case by (auto split: if_splits intro: reach_refl)
next
  case (2 fl a k m p pv c r cs)
  show ?case
  proof (cases "(if m = 0 then k (St p pv (c # r) cs) else None)")
    case (Some y)
    with 2 show ?thesis by (auto split: if_splits intro: reach_refl)
  next
    case None
    with "2.prems" have ok: "atom_ok fl a c"
      and rc: "rep_lazy fl a k (m - 1) (St (p + 1) (Some c) r cs) = Some x"
      by (auto split: if_splits)
    from "2.IH"[OF None ok rc] show ?thesis by (blast intro: reach_step_trans)
  qed
qed

lemma rep_greedy_reach:
  "rep_greedy fl a k m st = Some x \<Longrightarrow> \<exists>st'. reach {} st st' \<and> k st' = Some x"
proof (induction fl a k m st rule: rep_greedy.induct)
  case (1 fl a k m p pv cs)
  then show ?case by (auto split: if_splits intro: reach_refl)
next
  case (2 fl a k m p pv c r cs)
  show ?case
  proof (cases "atom_ok fl a c \<and> rep_greedy fl a k (m - 1) (St (p + 1) (Some c) r cs) \<noteq> None")
    case True
    then obtain y where y: "rep_greedy fl a k (m - 1) (St (p + 1) (Some c) r cs) = Some y" by auto
    with True "2.prems" have "y = x" by simp
    with "2.IH" True y show ?thesis by (blast intro: reach_step_trans)
  next
    case False
    with "2.prems" have "m = 0" "k (St p pv (c # r) cs) = Some x" by (auto split: if_splits)
    then show ?thesis by (blast intro: reach_refl)
  qed
qed

lemma rxk_reach:
  "rxk fl r k st = Some x \<Longrightarrow> \<exists>st'. reach (gnames r) st st' \<and> k st' = Some x"
proof (induction r arbitrary: k st x)
  case (Atom a)
  then obtain c r where cr: "m_rest st = c # r" "atom_ok fl a c"
    "k (St (m_pos st + 1) (Some c) r (m_caps st)) = Some x"
    by (auto split: list.splits if_splits)
  have "reach {} (St (m_pos st) (m_prev st) (c # r) (m_caps st)) (St (m_pos st + 1) (Some c) r (m_caps st))"
    by (rule reach_step)
  moreover have "St (m_pos st) (m_prev st) (c # r) (m_caps st) = st" using cr(1) by (cases st) simp
  ultimately show ?case using cr(3) by auto
next
  case (Lit s)
  then show ?case by (auto split: option.splits dest: lit_match_reach)
next
  case (Rep g m a)
  then show ?case by (auto split: if_splits dest: rep_lazy_reach rep_greedy_reach)
next
  case (Seq a b)
  from Seq.prems have "rxk fl a (rxk fl b k) st = Some x" by simp
  from Seq.IH(1)[OF this] obtain s1 where s1: "reach (gnames a) st s1" "rxk fl b k s1 = Some x" by blast
  from Seq.IH(2)[OF s1(2)] obtain s2 where s2: "reach (gnames b) s1 s2" "k s2 = Some x" by blast
  from reach_trans[OF s1(1) s2(1)] s2(2) show ?case by auto
next
  case (Alt a b)
  show ?case
  proof (cases "rxk fl a k st")
    case None
    with Alt.prems have "rxk fl b k st = Some x" by simp
    from Alt.IH(2)[OF this] show ?thesis by (auto intro: reach_mono)
  next
    case (Some y)
    with Alt.prems have "rxk fl a k st = Some x" by simp
    from Alt.IH(1)[OF this] show ?thesis by (auto intro: reach_mono)
  qed
next
  case Eps
  then show ?case by (auto intro: reach_refl)
next
  case Bol
  then show ?case by (auto split: if_splits intro: reach_refl)
next
  case Eol
  then show ?case by (auto split: list.splits if_splits intro: reach_refl)
next
  case (Group n r)
  let ?k = "\<lambda>e. k (St (m_pos e) (m_prev e) (m_rest e) ((n, m_pos st, m_pos e) # m_caps e))"
  from Group.prems have "rxk fl r ?k st = Some x" by simp
  from Group.IH[OF this] obtain e where e: "reach (gnames r) st e" "?k e = Some x" by blast
  have "reach (gnames (Group n r)) st (St (m_pos e) (m_prev e) (m_rest e) ((n, m_pos st, m_pos e) # m_caps e))"
    using e(1) unfolding reach_def by auto
  with e(2) show ?case by blast
next
  case (Look r)
  from Look.prems obtain e where e: "rxk fl r Some st = Some e"
    "k (St (m_pos st) (m_prev st) (m_rest st) (m_caps e)) = Some x"
    by (auto split: option.splits)
  from Look.IH[OF e(1)] have "reach (gnames r) st e" by auto
  then have "reach (gnames (Look r)) st (St (m_pos st) (m_prev st) (m_rest st) (m_caps e))"
    unfolding reach_def by (auto intro: exI[of _ 0])
  with e(2) show ?case by blast
qed

lemma match_at_reach:
  "match_at fl r adv p pv rs = Some e \<Longrightarrow>
     reach (gnames r) (St p pv rs []) e \<and> (adv \<longrightarrow> m_pos e \<noteq> p)"
  unfolding match_at_def by (auto dest!: rxk_reach split: if_splits)

lemma scan_reach:
  "scan fl r adv p pv rs = Some (s, e) \<Longrightarrow>
     \<exists>j pv'. j \<le> length rs \<and> s = p + j \<and> reach (gnames r) (St s pv' (drop j rs) []) e \<and>
       (adv \<and> j = 0 \<longrightarrow> m_pos e \<noteq> p)"
proof (induction fl r adv p pv rs rule: scan.induct)
  case (1 fl r adv p pv)
  then have "match_at fl r adv p pv [] = Some e" "s = p" by (auto split: option.splits)
  from match_at_reach[OF this(1)] this(2) show ?case
    by (intro exI[of _ 0] exI[of _ pv]) simp
next
  case (2 fl r adv p pv c rs)
  show ?case
  proof (cases "match_at fl r adv p pv (c # rs)")
    case (Some e')
    with "2.prems" have "e' = e" "s = p" by simp_all
    with match_at_reach[OF Some] show ?thesis
      by (intro exI[of _ 0] exI[of _ pv]) simp
  next
    case None
    with "2.prems" have "scan fl r False (p + 1) (Some c) rs = Some (s, e)" by simp
    from "2.IH"[OF None this] obtain j pv' where
      j: "j \<le> length rs" "s = p + 1 + j" "reach (gnames r) (St s pv' (drop j rs) []) e" by blast
    then show ?thesis by (intro exI[of _ "Suc j"] exI[of _ pv']) simp
  qed
qed

termination finditer_from
proof (relation "measure (\<lambda>(fl, r, adv, st). 2 * length (m_rest st) + (if adv then 0 else 1))")
  show "wf (measure (\<lambda>(fl, r, adv, st). 2 * length (m_rest st) + (if adv then 0 else 1)))"
    by simp
next
  fix fl :: flags and r :: rx and adv :: bool and st :: mstate and m :: "nat \<times> mstate"
  assume s: "scan fl r adv (m_pos st) (m_prev st) (m_rest st) = Some m"
  obtain s0 e where m: "m = (s0, e)" by (cases m)
  from scan_reach[of fl r adv "m_pos st" "m_prev st" "m_rest st" s0 e] s m
  obtain j pv' where j: "j \<le> length (m_rest st)" "s0 = m_pos st + j"
    "reach (gnames r) (St s0 pv' (drop j (m_rest st)) []) e"
    "adv \<and> j = 0 \<longrightarrow> m_pos e \<noteq> m_pos st" by blast
  from j(3) obtain n where n: "n \<le> length (m_rest st) - j" "m_pos e = s0 + n"
    "m_rest e = drop n (drop j (m_rest st))"
    unfolding reach_def by auto
  show "((fl, r, m_end m = m_start m, snd m), fl, r, adv, st)
        \<in> measure (\<lambda>(fl, r, adv, st). 2 * length (m_rest st) + (if adv then 0 else 1))"
    using j n by (auto simp: m m_end_def m_start_def)
qed

declare finditer_from.simps [simp del]

definition finditer :: "flags \<Rightarrow> rx \<Rightarrow> str \<Rightarrow> (nat \<times> mstate) list" where
  "finditer fl r t = finditer_from fl r False (St 0 None t [])"

text \<open>
  \<open>re.sub(pattern, repl, t)\<close> for a replacement without group references: the text
  between the matches is kept, each match becomes \<open>repl\<close>.
\<close>

fun splice :: "str \<Rightarrow> str \<Rightarrow> nat \<Rightarrow> (nat \<times> mstate) list \<Rightarrow> str" where
  "splice t repl cur [] = drop cur t"
| "splice t repl cur (m # ms) = slice t cur (m_start m) @ repl @ splice t repl (m_end m) ms"

definition re_sub :: "flags \<Rightarrow> rx \<Rightarrow> str \<Rightarrow> str \<Rightarrow> str" where
  "re_sub fl r repl t = splice t repl 0 (finditer fl r t)"

text \<open>\<open>match.groupdict().get(name, default)\<close> for a group that took part in the match.\<close>

definition group_get :: "str \<Rightarrow> caps \<Rightarrow> string \<Rightarrow> str \<Rightarrow> str" where
  "group_get t cs name dflt =
     (case map_of cs name of Some se \<Rightarrow> slice t (fst se) (snd se) | None \<Rightarrow> dflt)"

section \<open>The patterns of patterns.py\<close>

definition no_flags :: flags where
  "no_flags = \<lparr>ignorecase = False, multiline = False, dotall = False\<rparr>"

abbreviation ws :: rx where "ws \<equiv> Atom (Cls [CSpace])"
abbreviation ws0 :: rx where "ws0 \<equiv> Rep True 0 (Cls [CSpace])"
abbreviation ws1 :: rx where "ws1 \<equiv> Rep True 1 (Cls [CSpace])"
abbreviation nl :: rx where "nl \<equiv> Lit [10]"

text \<open>The alternative \<open>(?:D\'ecret|Loi|Arr\^et\'e|D\'ecision)\<close>; 233 is e acute, 234 e circumflex.\<close>

definition act_keywords :: rx where
  "act_keywords = alts [Lit (ascii ''D'' @ [233] @ ascii ''cret''), Lit (ascii ''Loi''),
     Lit (ascii ''Arr'' @ [234] @ ascii ''t'' @ [233]), Lit (ascii ''D'' @ [233] @ ascii ''cision'')]"

text \<open>The start of an act: \<open>^(?:...)\s\<close> with IGNORECASE and MULTILINE.\<close>

definition start_flags :: flags where
  "start_flags = \<lparr>ignorecase = True, multiline = True, dotall = False\<rparr>"

definition DOCUMENT_START_PATTERN :: rx where
  "DOCUMENT_START_PATTERN = cat [Bol, act_keywords, ws]"

text \<open>
  The header of one act, with VERBOSE, DOTALL, IGNORECASE and MULTILINE
  (176 is the degree sign, 232 e grave, 231 c cedilla, 224 a grave).
\<close>

definition header_flags :: flags where
  "header_flags = \<lparr>ignorecase = True, multiline = True, dotall = True\<rparr>"

definition DOCUMENT_HEADER_PATTERN :: rx where
  "DOCUMENT_HEADER_PATTERN = cat [
     Bol,
     Group ''type'' (cat [act_keywords,
        Rep False 1 (Cls [CSpace, CWord, CChar 233, CChar 232, CChar 231, CChar 224,
                          CChar 32, CChar 45, CChar 46, CChar 47])]),
     ws1, Lit (ascii ''n'' @ [176]), ws0,
     Group ''number'' (Rep False 1 (Cls [CDigit, CSpace, CChar 45, CChar 46, CChar 47])),
     ws1, Lit (ascii ''du''), ws1,
     Group ''date'' (Rep False 0 Dot),
     ws1,
     alts [Lit (ascii ''portant''), cat [Lit (ascii ''relative''), ws1, Lit (ascii ''au'')],
           Lit (ascii ''fixant''), Lit (ascii ''modifiant''), Lit (ascii ''mettant''),
           Lit (ascii ''portant'')],
     ws1,
     Group ''title'' (Rep False 0 Dot),
     Look (alts [
       cat [nl, ws0, Lit (ascii ''Le''), ws, Lit (ascii ''Pr'' @ [233] @ ascii ''sident''), ws,
            Lit (ascii ''de''), ws, Lit (ascii ''la''), ws,
            Lit (ascii ''R'' @ [233] @ ascii ''publique,'')],
       cat [nl, ws0, Lit (ascii ''Le''), ws, Lit (ascii ''Premier''), ws, Lit (ascii ''ministre,'')],
       cat [nl, ws0, Lit (ascii ''Vu''), ws1, Lit (ascii ''la''), ws1, Lit (ascii ''Constitution'')],
       cat [nl, ws0, Lit (ascii ''Article''), ws0, Atom (Cls [CDigit])]])]"

text \<open>The header of an individual decision, with VERBOSE, IGNORECASE and MULTILINE.\<close>

definition individual_flags :: flags where
  "individual_flags = \<lparr>ignorecase = True, multiline = True, dotall = False\<rparr>"

definition INDIVIDUAL_DECISION_PATTERN :: rx where
  "INDIVIDUAL_DECISION_PATTERN = cat [
     Bol,
     Group ''type'' (alts [
       cat [Lit (ascii ''D'' @ [233] @ ascii ''cret''), ws,
            alts [Lit (ascii ''pr'' @ [233] @ ascii ''sidentiel''),
                  Lit (ascii ''ex'' @ [233] @ ascii ''cutif'')]],
       Lit (ascii ''Arr'' @ [234] @ ascii ''t'' @ [233])]),
     ws1, Lit (ascii ''du''), ws1,
     Group ''date'' (Rep False 1 Dot),
     ws1,
     Group ''title'' (cat [
       alts [cat [Lit (ascii ''mettant''), ws, Lit (ascii ''fin'')],
             cat [Lit (ascii ''portant''), ws, Lit (ascii ''nomination'')]],
       Rep True 0 Dot])]"

text \<open>One article, with VERBOSE and DOTALL (8212 is the em dash).\<close>

definition article_flags :: flags where
  "article_flags = \<lparr>ignorecase = False, multiline = False, dotall = True\<rparr>"

definition article_marker :: rx where
  "article_marker = cat [nl, ws0, alts [Lit (ascii ''Art''), Lit (ascii ''Article'')], Lit (ascii ''.'')]"

definition ARTICLE_PATTERN :: rx where
  "ARTICLE_PATTERN = cat [
     article_marker, ws0,
     Group ''number'' (cat [Rep True 1 (Cls [CWord, CDigit]), opt (Lit (ascii ''er''))]),
     ws0, opt (Atom (Cls [CChar 8212, CChar 45])), ws0,
     Group ''content'' (Rep False 0 Dot),
     Look (alts [
       article_marker,
       cat [nl, ws0, Lit (ascii ''Fait''), ws, Lit [224], ws, Lit (ascii ''Alger'')],
       cat [nl, ws0, Lit (ascii ''Le''), ws, Lit (ascii ''ministre'')],
       cat [nl, ws0, Lit (ascii ''Par''), ws1, Lit (ascii ''ces''), ws1, Lit (ascii ''motifs'')],
       Eol])]"

section \<open>The parser of parser.py\<close>

record article =
  number :: str
  content :: str

record document =
  document_type :: str
  official_number :: str
  date :: str
  title :: str
  articles :: "article list"
  category :: "str option"

definition NA :: str where
  "NA = ascii ''N/A''"

text \<open>The three page artifacts that \<open>_pre_clean_gazette\<close> removes.\<close>

definition NEW_PAGE :: rx where
  "NEW_PAGE = Lit (ascii ''--- NEW PAGE ---'')"

definition HIJRI_LINE :: rx where
  "HIJRI_LINE = cat [nl, ws0, Lit (ascii ''9 Joumada Ethania 1446''), nl, Rep True 0 Dot]"

definition JOURNAL_LINE :: rx where
  "JOURNAL_LINE = cat [nl, ws0,
     Lit (ascii ''JOURNAL OFFICIEL DE LA REPUBLIQUE ALGERIENNE N'' @ [176] @ ascii '' ''),
     Rep True 1 (Cls [CDigit])]"

definition pre_clean_gazette :: "str \<Rightarrow> str" where
  "pre_clean_gazette t =
     re_sub no_flags JOURNAL_LINE [] (re_sub no_flags HIJRI_LINE [] (re_sub no_flags NEW_PAGE [] t))"

text \<open>\<open>_clean_field\<close>.\<close>

definition clean_field :: "str \<Rightarrow> str" where
  "clean_field t =
     strip (lstrip_chars (ascii ''.- '') (re_sub no_flags ws1 [32] (strip (replace_newlines t))))"

text \<open>
  \<open>_find_content_start\<close>: \<open>re.split\<close> with \<open>maxsplit=1\<close> on a pattern without groups
  gives the text before the first match and the text after it.
\<close>

definition sommaire_flags :: flags where
  "sommaire_flags = \<lparr>ignorecase = True, multiline = False, dotall = False\<rparr>"

definition SOMMAIRE :: rx where
  "SOMMAIRE = cat [Lit (ascii ''SOMMAIRE''), opt (Lit (ascii '' (suite)''))]"

definition find_content_start :: "str \<Rightarrow> str" where
  "find_content_start t =
     (case re_search sommaire_flags SOMMAIRE t of
        Some m \<Rightarrow> drop (m_end m) t
      | None \<Rightarrow> t)"

text \<open>\<open>parse_articles\<close>: one article for each match of the article pattern.\<close>

definition article_of :: "str \<Rightarrow> nat \<times> mstate \<Rightarrow> article" where
  "article_of t m =
     \<lparr>number = clean_field (group_get t (m_groups m) ''number'' []),
      content = clean_field (group_get t (m_groups m) ''content'' [])\<rparr>"

definition parse_articles :: "str \<Rightarrow> article list" where
  "parse_articles t = map (article_of t) (finditer article_flags ARTICLE_PATTERN t)"

text \<open>
  The first lines of \<open>parse_document\<close>: the full header first, the individual
  decision only when the full header fails; the flag is \<open>is_individual\<close>.
\<close>

definition header_stage :: "str \<Rightarrow> ((nat \<times> mstate) \<times> bool) option" where
  "header_stage doc_text =
     (case re_search header_flags DOCUMENT_HEADER_PATTERN doc_text of
        Some header_match \<Rightarrow> Some (header_match, False)
      | None \<Rightarrow>
          (case re_search individual_flags INDIVIDUAL_DECISION_PATTERN doc_text of
             Some header_match \<Rightarrow> Some (header_match, True)
           | None \<Rightarrow> None))"

text \<open>The record \<open>parse_document\<close> builds, before its final validation.\<close>

definition build_document :: "str \<Rightarrow> (nat \<times> mstate) \<times> bool \<Rightarrow> document" where
  "build_document doc_text hm =
     (let header_match = fst hm; is_individual = snd hm;
          header_data = m_groups header_match
      in \<lparr>document_type = clean_field (group_get doc_text header_data ''type'' NA),
          official_number = clean_field (group_get doc_text header_data ''number'' NA),
          date = clean_field (group_get doc_text header_data ''date'' NA),
          title = clean_field (group_get doc_text header_data ''title'' NA),
          articles = (if is_individual then []
                      else parse_articles (drop (m_end header_match) doc_text)),
          category = None\<rparr>)"

definition parse_document :: "str \<Rightarrow> document option" where
  "parse_document doc_text =
     (case header_stage doc_text of
        None \<Rightarrow> None
      | Some hm \<Rightarrow>
          (let d = build_document doc_text hm
           in if title d = NA \<and> articles d = [] then None else Some d))"

text \<open>\<open>process_full_gazette\<close>: the segments, then the loop over them.\<close>

definition segment_bounds :: "nat \<Rightarrow> nat list \<Rightarrow> (nat \<times> nat) list" where
  "segment_bounds n starts =
     map (\<lambda>i. (starts ! i, if i + 1 < length starts then starts ! (i + 1) else n))
       [0..<length starts]"

definition boundaries :: "str \<Rightarrow> nat list" where
  "boundaries main_content = map m_start (finditer start_flags DOCUMENT_START_PATTERN main_content)"

definition doc_texts :: "str \<Rightarrow> str list" where
  "doc_texts main_content =
     map (\<lambda>se. slice main_content (fst se) (snd se))
       (segment_bounds (length main_content) (boundaries main_content))"

definition allowlisted :: "document \<Rightarrow> bool" where
  "allowlisted d \<longleftrightarrow>
     contains (ascii ''nomination'') (title d) \<or> contains (ascii ''mettant fin'') (title d)"

fun parse_segments :: "str list \<Rightarrow> document list" where
  "parse_segments [] = []"
| "parse_segments (doc_text # rest) =
     (case parse_document doc_text of
        None \<Rightarrow> parse_segments rest
      | Some parsed_doc \<Rightarrow>
          if official_number parsed_doc = NA \<and> articles parsed_doc = []
          then (if allowlisted parsed_doc then parsed_doc # parse_segments rest
                else parse_segments rest)
          else parsed_doc # parse_segments rest)"

definition process_full_gazette :: "str \<Rightarrow> document list" where
  "process_full_gazette full_text =
     (let main_content = find_content_start (pre_clean_gazette full_text)
      in if boundaries main_content = [] then [] else parse_segments (doc_texts main_content))"

section \<open>The classifier of classifier.py\<close>

definition classify :: "document \<Rightarrow> str" where
  "classify d =
     (let doc_type = lower (document_type d)
      in if contains (ascii ''d'' @ [233] @ ascii ''cret'') doc_type then ascii ''Decree''
         else if contains (ascii ''loi'') doc_type then ascii ''Law''
         else if contains (ascii ''arr'' @ [234] @ ascii ''t'' @ [233]) doc_type then ascii ''Order''
         else if contains (ascii ''d'' @ [233] @ ascii ''cision'') doc_type then ascii ''Decision''
         else if contains (ascii ''circulaire'') doc_type then ascii ''Circular''
         else if contains (ascii ''ordonnance'') doc_type then ascii ''Ordinance''
         else ascii ''Uncategorized'')"

text \<open>The step of \<open>run_parser.py\<close> that stores the category in each document.\<close>

definition classify_all :: "document list \<Rightarrow> document list" where
  "classify_all docs = map (\<lambda>d. d\<lparr>category := Some (classify d)\<rparr>) docs"

section \<open>The chunker of chunker.py\<close>

record chunk_metadata =
  source_document_type :: str
  source_official_number :: str
  source_date :: str
  source_category :: "str option"
  source_article_number :: str

record chunk =
  chunk_text :: str
  metadata :: chunk_metadata

definition base_metadata :: "document \<Rightarrow> str \<Rightarrow> chunk_metadata" where
  "base_metadata d article_number =
     \<lparr>source_document_type = document_type d,
      source_official_number = official_number d,
      source_date = date d,
      source_category = category d,
      source_article_number = article_number\<rparr>"

definition article_chunk :: "document \<Rightarrow> article \<Rightarrow> chunk" where
  "article_chunk d a =
     \<lparr>chunk_text = ascii ''Article '' @ number a @ ascii '': '' @ content a,
      metadata = base_metadata d (number a)\<rparr>"

definition chunk_document :: "document \<Rightarrow> chunk list" where
  "chunk_document d =
     (if articles d = []
      then [\<lparr>chunk_text = document_type d @ ascii '': '' @ title d,
             metadata = base_metadata d NA\<rparr>]
      else map (article_chunk d) (articles d))"

text \<open>The whole pipeline: parse, classify, chunk.\<close>

definition pipeline_documents :: "str \<Rightarrow> document list" where
  "pipeline_documents full_text = classify_all (process_full_gazette full_text)"

definition pipeline_chunks :: "str \<Rightarrow> chunk list" where
  "pipeline_chunks full_text = concat (map chunk_document (pipeline_documents full_text))"

section \<open>The specification's table of the classifier, and sample documents\<close>

text \<open>The table of the classifier as the specification words it: keyword, category.\<close>

definition keyword_table :: "(str \<times> str) list" where
  "keyword_table =
     [(ascii ''d'' @ [233] @ ascii ''cret'', ascii ''Decree''),
      (ascii ''loi'', ascii ''Law''),
      (ascii ''arr'' @ [234] @ ascii ''t'' @ [233], ascii ''Order''),
      (ascii ''d'' @ [233] @ ascii ''cision'', ascii ''Decision''),
      (ascii ''circulaire'', ascii ''Circular''),
      (ascii ''ordonnance'', ascii ''Ordinance'')]"

definition first_keyword_category :: "str \<Rightarrow> str" where
  "first_keyword_category doc_type =
     (case List.find (\<lambda>kc. contains (fst kc) (lower doc_type)) keyword_table of
        Some kc \<Rightarrow> snd kc
      | None \<Rightarrow> ascii ''Uncategorized'')"

definition categories :: "str list" where
  "categories = [ascii ''Decree'', ascii ''Law'', ascii ''Order'', ascii ''Decision'',
     ascii ''Circular'', ascii ''Ordinance'', ascii ''Uncategorized'']"

text \<open>A law with two articles.\<close>

definition two_article_doc :: document where
  "two_article_doc =
     \<lparr>document_type = ascii ''Loi'', official_number = ascii ''24-01'', date = ascii ''2 mai 2024'',
      title = ascii ''finances'',
      articles = [\<lparr>number = ascii ''1er'', content = ascii ''a''\<rparr>, \<lparr>number = ascii ''2'', content = ascii ''b''\<rparr>],
      category = Some (ascii ''Law'')\<rparr>"

text \<open>Short segments: no header; an individual decision; one in capitals; a full header
  with an article; a full header whose title is the sentinel.\<close>

definition seg_none :: str where "seg_none = ascii ''Loi x''"
definition seg_individual :: str where "seg_individual = ascii ''Arr'' @ [234] @ ascii ''t'' @ [233] @ ascii '' du 1 mettant fin''"
definition seg_upper :: str where "seg_upper = ascii ''Arr'' @ [234] @ ascii ''t'' @ [233] @ ascii '' du 1 METTANT FIN''"
definition seg_full :: str where "seg_full = ascii ''Loi a n'' @ [176] @ ascii '' 1 du 2 fixant t'' @ [10] @ ascii ''Article 1'' @ [10] @ ascii ''Art. 2 - b''"
definition seg_na :: str where "seg_na = ascii ''Loi a n'' @ [176] @ ascii '' 1 du 2 fixant N/A'' @ [10] @ ascii ''Article 1''"

text \<open>Scenario B of the specification, and the document it gives.\<close>

definition scenario_B :: str where
  "scenario_B = ascii ''D'' @ [233] @ ascii ''cret pr'' @ [233] @ ascii ''sidentiel du 3 mars 2024 mettant fin aux fonctions de M. X.''"

definition document_B :: document where
  "document_B =
     \<lparr>document_type = ascii ''D'' @ [233] @ ascii ''cret pr'' @ [233] @ ascii ''sidentiel'',
      official_number = ascii ''N/A'', date = ascii ''3 mars 2024'',
      title = ascii ''mettant fin aux fonctions de M. X.'', articles = [], category = None\<rparr>"

text \<open>The least number of characters a match of a pattern takes.\<close>

primrec min_len :: "rx \<Rightarrow> nat" where
  "min_len (Atom a) = 1"
| "min_len (Lit s) = length s"
| "min_len (Rep g m a) = m"
| "min_len (Seq a b) = min_len a + min_len b"
| "min_len (Alt a b) = min (min_len a) (min_len b)"
| "min_len Eps = 0"
| "min_len Bol = 0"
| "min_len Eol = 0"
| "min_len (Group n r) = min_len r"
| "min_len (Look r) = 0"

text \<open>A content with a line before the first act, and two acts.\<close>

definition content_two :: str where
  "content_two = ascii ''x'' @ [10] @ ascii ''Loi a'' @ [10] @ ascii ''Loi b''"

text \<open>
  The article matches of a document text, as \<open>parse_document\<close> finds them in the text
  after the end of the header, with their positions counted in the document text.
\<close>

definition shift_match :: "nat \<Rightarrow> nat \<times> mstate \<Rightarrow> nat \<times> mstate" where
  "shift_match off m =
     (fst m + off,
      St (m_pos (snd m) + off) (m_prev (snd m)) (m_rest (snd m))
         (map (\<lambda>g. (fst g, fst (snd g) + off, snd (snd g) + off)) (m_caps (snd m))))"

definition article_matches :: "str \<Rightarrow> nat \<Rightarrow> (nat \<times> mstate) list" where
  "article_matches doc_text header_end =
     map (shift_match header_end) (finditer article_flags ARTICLE_PATTERN (drop header_end doc_text))"

text \<open>Every captured span starts at or after \<open>lo\<close> and does not end before it starts.\<close>

definition caps_ok :: "nat \<Rightarrow> mstate \<Rightarrow> bool" where
  "caps_ok lo st \<longleftrightarrow> (\<forall>g \<in> set (m_caps st). lo \<le> fst (snd g) \<and> fst (snd g) \<le> snd (snd g))"

section \<open>Rules for evaluating the character tables\<close>

text \<open>
  The tables as decision lists, so that a test on a concrete character stops at the
  first range that decides it.
\<close>

lemma is_space_fast:
  "is_space c =
     (if c \<le> (32::nat) then (9 \<le> c \<and> c \<le> (13::nat)) \<or> 28 \<le> c
      else if c < (133::nat) then False
      else if c \<le> (160::nat) then c = (133::nat) \<or> c = (160::nat)
      else if c < (5760::nat) then False
      else c = (5760::nat) \<or> (8192 \<le> c \<and> c \<le> (8202::nat)) \<or>
           c = (8232::nat) \<or> c = (8233::nat) \<or> c = (8239::nat) \<or>
           c = (8287::nat) \<or> c = (12288::nat))"
  unfolding is_space_def by auto

lemma is_digit_fast:
  "is_digit (c) = (if c < (48::nat) then False else c \<le> (57::nat))"
  unfolding is_digit_def by auto

lemma is_word_fast:
  "is_word (c) =
     (if c < (48::nat) then False
      else if c \<le> (57::nat) then True
      else if c < (65::nat) then False
      else if c \<le> (90::nat) then True
      else if c < (97::nat) then c = (95::nat)
      else if c \<le> (122::nat) then True
      else if c < (170::nat) then False
      else if c < (192::nat) then
             c = (170::nat) \<or> c = (178::nat) \<or> c = (179::nat) \<or>
             c = (181::nat) \<or> c = (185::nat) \<or> c = (186::nat) \<or>
             (188 \<le> c \<and> c \<le> (190::nat))
      else if c \<le> (255::nat) then c \<noteq> (215::nat) \<and> c \<noteq> (247::nat)
      else False)"
  unfolding is_word_def is_digit_def by auto

lemma tolower_fast:
  "tolower (c) =
     (if c < (65::nat) then c
      else if c \<le> (90::nat) then c + 32
      else if c < (192::nat) then c
      else if c \<le> (222::nat) then (if c = (215::nat) then 215 else c + 32)
      else if c < (304::nat) then c
      else if c = (304::nat) then 105
      else if c = (376::nat) then 255
      else if c = (7838::nat) then 223
      else if c = (8490::nat) then 107
      else if c = (8491::nat) then 229
      else c)"
  unfolding tolower_def by auto

lemma fixes_of_fast:
  "fixes_of (c) =
     (if c = (105::nat) then [305] else if c = (115::nat) then [383]
      else if c = (181::nat) then [956] else [])"
  unfolding fixes_of_def by simp

lemmas is_space_eval = is_space_fast [of "numeral k"] for k
lemmas is_digit_eval = is_digit_fast [of "numeral k"] for k
lemmas is_word_eval = is_word_fast [of "numeral k"] for k
lemmas tolower_eval = tolower_fast [of "numeral k"] for k
lemmas fixes_of_eval = fixes_of_fast [of "numeral k"] for k

lemma lit_ok_fast:
  "lit_ok fl p c =
     (if ignorecase fl
      then (if tolower c = tolower p then True
            else tolower c \<in> set (fixes_of (tolower p)))
      else c = p)"
  unfolding lit_ok_def by auto

lemmas lit_ok_eval = lit_ok_fast [of _ "numeral p" "numeral c"] for p c

lemma citem_ok_word_fast:
  "citem_ok fl CWord c = (if ignorecase fl then is_word (tolower c) else is_word c)"
  by simp

lemmas citem_ok_word_eval = citem_ok_word_fast [of _ "numeral k"] for k

lemma atom_ok_cls_eval:
  "atom_ok fl (Cls []) c = False"
  "atom_ok fl (Cls (i # items)) c = (if citem_ok fl i c then True else atom_ok fl (Cls items) c)"
  by simp_all

lemmas ev = finditer_from.simps ascii_def is_space_eval is_digit_eval is_word_eval tolower_eval fixes_of_eval
  lit_ok_eval citem_ok_word_eval atom_ok_cls_eval
  opt_def match_at_def re_search_def act_keywords_def
  header_flags_def individual_flags_def start_flags_def article_flags_def no_flags_def sommaire_flags_def

lemmas ev_del = citem_ok.simps(3) atom_ok.simps(2)

section \<open>The loop over the segments\<close>

lemma parse_segments_append:
  "parse_segments (ts @ us) = parse_segments ts @ parse_segments us"
  by (induction ts) (simp_all split: option.splits)

lemma parse_segments_single:
  "parse_segments [t] =
     (case parse_document t of
        None \<Rightarrow> []
      | Some d \<Rightarrow> if official_number d = NA \<and> articles d = [] \<and> \<not> allowlisted d then [] else [d])"
  by (simp split: option.splits)

lemma parse_document_Some:
  "parse_document t = Some d \<Longrightarrow> \<not> (title d = NA \<and> articles d = [])"
  unfolding parse_document_def Let_def by (cases "header_stage t") (simp_all split: if_splits)

lemma parse_document_stage:
  "header_stage t = Some hm \<Longrightarrow>
     parse_document t =
       (if title (build_document t hm) = NA \<and> articles (build_document t hm) = [] then None
        else Some (build_document t hm))"
  unfolding parse_document_def Let_def by simp

section \<open>The sample segments, evaluated\<close>

lemmas ev_parse = ev finditer_def re_sub_def slice_def m_start_def m_end_def m_groups_def
  header_stage_def parse_document_def build_document_def parse_articles_def article_of_def
  group_get_def clean_field_def strip_def lstrip_chars_def replace_newlines_def NA_def Let_def
  DOCUMENT_HEADER_PATTERN_def INDIVIDUAL_DECISION_PATTERN_def ARTICLE_PATTERN_def article_marker_def

lemma header_stage_none: "header_stage seg_none = None"
  by (simp add: ev_parse seg_none_def del: ev_del)
lemma header_stage_individual:
  "header_stage seg_individual =
     Some ((0, St 23 (Some 110) [] [(''title'', 12, 23), (''date'', 10, 11), (''type'', 0, 6)]), True)"
  by (simp add: ev_parse seg_individual_def del: ev_del)
lemma parse_document_individual:
  "parse_document seg_individual =
     Some \<lparr>document_type = ascii ''Arr'' @ [234] @ ascii ''t'' @ [233], official_number = ascii ''N/A'',
       date = ascii ''1'', title = ascii ''mettant fin'', articles = [], category = None\<rparr>"
  by (simp add: ev_parse seg_individual_def del: ev_del)
lemma parse_document_upper:
  "parse_document seg_upper =
     Some \<lparr>document_type = ascii ''Arr'' @ [234] @ ascii ''t'' @ [233], official_number = ascii ''N/A'',
       date = ascii ''1'', title = ascii ''METTANT FIN'', articles = [], category = None\<rparr>"
  by (simp add: ev_parse seg_upper_def del: ev_del)
lemma header_stage_full:
  "header_stage seg_full =
     Some ((0, St 24 (Some 116) (drop 24 seg_full)
        [(''title'', 23, 24), (''date'', 14, 15), (''number'', 9, 10), (''type'', 0, 5)]), False)"
  by (simp add: ev_parse seg_full_def del: ev_del)
lemma parse_document_full:
  "parse_document seg_full =
     Some \<lparr>document_type = ascii ''Loi a'', official_number = ascii ''1'',
       date = ascii ''2'', title = ascii ''t'',
       articles = [\<lparr>number = ascii ''2'', content = ascii ''b''\<rparr>], category = None\<rparr>"
  by (simp add: ev_parse seg_full_def del: ev_del)
lemma parse_document_na: "parse_document seg_na = None \<and> (\<exists>m. header_stage seg_na = Some (m, False))"
  by (simp add: ev_parse seg_na_def del: ev_del)

section \<open>Whole gazettes: scenario B and the short segments\<close>

lemmas ev_gazette = ev_parse process_full_gazette_def pre_clean_gazette_def find_content_start_def
  boundaries_def doc_texts_def segment_bounds_def NEW_PAGE_def HIJRI_LINE_def JOURNAL_LINE_def
  SOMMAIRE_def DOCUMENT_START_PATTERN_def

lemma segments_upper: "find_content_start (pre_clean_gazette seg_upper) = seg_upper \<and>
   boundaries seg_upper = [0] \<and> doc_texts seg_upper = [seg_upper]"
  by (simp add: ev_gazette seg_upper_def del: ev_del)

lemma segments_B: "find_content_start (pre_clean_gazette scenario_B) = scenario_B \<and>
   boundaries scenario_B = [0] \<and> doc_texts scenario_B = [scenario_B]"
  by (simp add: ev_gazette scenario_B_def del: ev_del)

lemma header_stage_B:
  "header_stage scenario_B =
     Some ((0, St 69 (Some 46) [] [(''title'', 35, 69), (''date'', 23, 34), (''type'', 0, 19)]), True)"
  by (simp add: ev_parse scenario_B_def del: ev_del)

lemma parse_document_B: "parse_document scenario_B = Some document_B"
  unfolding parse_document_def header_stage_B
  by (simp add: ev_parse scenario_B_def document_B_def del: ev_del)

lemma clean_field_NA: "clean_field NA = NA"
  by (simp add: ev_parse del: ev_del)

lemma re_search_groups:
  assumes "re_search fl r t = Some m"
  shows "fst ` set (m_groups m) \<subseteq> gnames r"
proof -
  obtain s e where m: "m = (s, e)" by (cases m)
  from assms have "scan fl r False 0 None t = Some (s, e)" by (simp add: re_search_def m)
  from scan_reach [OF this] obtain j pv' where "reach (gnames r) (St s pv' (drop j t) []) e" by blast
  then show ?thesis by (simp add: reach_def m m_groups_def)
qed

lemma gnames_individual:
  "gnames INDIVIDUAL_DECISION_PATTERN = {''type'', ''date'', ''title''}"
  by (auto simp: INDIVIDUAL_DECISION_PATTERN_def)

lemma individual_no_number:
  assumes "header_stage t = Some (m, True)"
  shows "official_number (build_document t (m, True)) = NA \<and> articles (build_document t (m, True)) = []"
proof -
  from assms have "re_search individual_flags INDIVIDUAL_DECISION_PATTERN t = Some m"
    unfolding header_stage_def by (simp split: option.splits)
  from re_search_groups [OF this] have "''number'' \<notin> fst ` set (m_groups m)"
    unfolding gnames_individual by auto
  then have "map_of (m_groups m) ''number'' = None" by (simp add: map_of_eq_None_iff)
  then show ?thesis by (simp add: build_document_def group_get_def clean_field_NA Let_def)
qed

lemma header_stage_upper: "\<exists>m. header_stage seg_upper = Some (m, True)"
  by (simp add: ev_parse seg_upper_def del: ev_del)

lemma segments_individual: "find_content_start (pre_clean_gazette seg_individual) = seg_individual \<and>
   boundaries seg_individual = [0] \<and> doc_texts seg_individual = [seg_individual]"
  by (simp add: ev_gazette seg_individual_def del: ev_del)

lemma process_full_gazette_segments:
  "find_content_start (pre_clean_gazette t) = mc \<Longrightarrow> boundaries mc \<noteq> [] \<Longrightarrow>
     process_full_gazette t = parse_segments (doc_texts mc)"
  by (simp add: process_full_gazette_def)

section \<open>The matches of finditer, and the segments\<close>

lemma lit_match_pos: "lit_match fl s st = Some st' \<Longrightarrow> m_pos st' = m_pos st + length s"
proof (induction fl s st rule: lit_match.induct)
  case (3 fl x xs p pv c r cs)
  then show ?case by (simp split: if_splits)
qed simp_all

lemma rep_lazy_min:
  "rep_lazy fl a k m st = Some x \<Longrightarrow> \<exists>st'. m_pos st + m \<le> m_pos st' \<and> k st' = Some x"
proof (induction fl a k m st rule: rep_lazy.induct)
  case (1 fl a k m p pv cs)
  then have "m = 0" "k (St p pv [] cs) = Some x" by (simp_all split: if_splits)
  then show ?case by (intro exI[of _ "St p pv [] cs"]) simp
next
  case (2 fl a k m p pv c r cs)
  show ?case
  proof (cases "(if m = 0 then k (St p pv (c # r) cs) else None)")
    case (Some y)
    with "2.prems" have "m = 0" "k (St p pv (c # r) cs) = Some x" by (simp_all split: if_splits)
    then show ?thesis by (intro exI[of _ "St p pv (c # r) cs"]) simp
  next
    case None
    with "2.prems" have ok: "atom_ok fl a c"
      and rc: "rep_lazy fl a k (m - 1) (St (p + 1) (Some c) r cs) = Some x"
      by (auto split: if_splits)
    from "2.IH"[OF None ok rc] obtain st' where "p + 1 + (m - 1) \<le> m_pos st'" "k st' = Some x"
      by auto
    then show ?thesis by (intro exI[of _ st']) simp
  qed
qed

lemma rep_greedy_min:
  "rep_greedy fl a k m st = Some x \<Longrightarrow> \<exists>st'. m_pos st + m \<le> m_pos st' \<and> k st' = Some x"
proof (induction fl a k m st rule: rep_greedy.induct)
  case (1 fl a k m p pv cs)
  then have "m = 0" "k (St p pv [] cs) = Some x" by (simp_all split: if_splits)
  then show ?case by (intro exI[of _ "St p pv [] cs"]) simp
next
  case (2 fl a k m p pv c r cs)
  show ?case
  proof (cases "atom_ok fl a c \<and> rep_greedy fl a k (m - 1) (St (p + 1) (Some c) r cs) \<noteq> None")
    case True
    then obtain y where y: "rep_greedy fl a k (m - 1) (St (p + 1) (Some c) r cs) = Some y" by auto
    with True "2.prems" have "y = x" by simp
    with "2.IH" True y obtain st' where "p + 1 + (m - 1) \<le> m_pos st'" "k st' = Some x" by auto
    then show ?thesis by (intro exI[of _ st']) simp
  next
    case False
    with "2.prems" have "m = 0" "k (St p pv (c # r) cs) = Some x" by (auto split: if_splits)
    then show ?thesis by (intro exI[of _ "St p pv (c # r) cs"]) simp
  qed
qed

lemma rxk_min:
  "rxk fl r k st = Some x \<Longrightarrow> \<exists>st'. m_pos st + min_len r \<le> m_pos st' \<and> k st' = Some x"
proof (induction r arbitrary: k st x)
  case (Atom a)
  then obtain c r where cr: "m_rest st = c # r"
    "k (St (m_pos st + 1) (Some c) r (m_caps st)) = Some x"
    by (auto split: list.splits if_splits)
  then show ?case by (intro exI[of _ "St (m_pos st + 1) (Some c) r (m_caps st)"]) simp
next
  case (Lit s)
  then obtain st' where "lit_match fl s st = Some st'" "k st' = Some x"
    by (auto split: option.splits)
  with lit_match_pos[of fl s st st'] show ?case by (intro exI[of _ st']) simp
next
  case (Rep g m a)
  then show ?case by (cases g) (simp_all add: rep_lazy_min rep_greedy_min)
next
  case (Seq a b)
  from Seq.prems have "rxk fl a (rxk fl b k) st = Some x" by simp
  from Seq.IH(1)[OF this] obtain s1 where s1: "m_pos st + min_len a \<le> m_pos s1" "rxk fl b k s1 = Some x" by blast
  from Seq.IH(2)[OF s1(2)] obtain s2 where s2: "m_pos s1 + min_len b \<le> m_pos s2" "k s2 = Some x" by blast
  from s1(1) s2 show ?case by (intro exI[of _ s2]) simp
next
  case (Alt a b)
  show ?case
  proof (cases "rxk fl a k st")
    case None
    with Alt.prems have "rxk fl b k st = Some x" by simp
    from Alt.IH(2)[OF this] obtain s where "m_pos st + min_len b \<le> m_pos s" "k s = Some x" by blast
    then show ?thesis by (intro exI[of _ s]) simp
  next
    case (Some y)
    with Alt.prems have "rxk fl a k st = Some x" by simp
    from Alt.IH(1)[OF this] obtain s where "m_pos st + min_len a \<le> m_pos s" "k s = Some x" by blast
    then show ?thesis by (intro exI[of _ s]) simp
  qed
next
  case Eps
  then show ?case by (intro exI[of _ st]) simp
next
  case Bol
  then show ?case by (intro exI[of _ st]) (simp split: if_splits)
next
  case Eol
  then show ?case by (intro exI[of _ st]) (simp split: list.splits if_splits)
next
  case (Group n r)
  let ?k = "\<lambda>e. k (St (m_pos e) (m_prev e) (m_rest e) ((n, m_pos st, m_pos e) # m_caps e))"
  from Group.prems have "rxk fl r ?k st = Some x" by simp
  from Group.IH[OF this] obtain e where e: "m_pos st + min_len r \<le> m_pos e" "?k e = Some x" by blast
  then show ?case
    by (intro exI[of _ "St (m_pos e) (m_prev e) (m_rest e) ((n, m_pos st, m_pos e) # m_caps e)"]) simp
next
  case (Look r)
  then obtain e where "k (St (m_pos st) (m_prev st) (m_rest st) (m_caps e)) = Some x"
    by (auto split: option.splits)
  then show ?case by (intro exI[of _ "St (m_pos st) (m_prev st) (m_rest st) (m_caps e)"]) simp
qed

lemma match_at_min:
  "match_at fl r adv p pv rs = Some e \<Longrightarrow> p + min_len r \<le> m_pos e"
  unfolding match_at_def using rxk_min[of fl r "\<lambda>e. if adv \<and> m_pos e = p then None else Some e" "St p pv rs []" e]
  by (auto split: if_splits)

lemma scan_min:
  "scan fl r adv p pv rs = Some (s, e) \<Longrightarrow> s + min_len r \<le> m_pos e"
proof (induction fl r adv p pv rs rule: scan.induct)
  case (1 fl r adv p pv)
  then have "match_at fl r adv p pv [] = Some e" "s = p" by (auto split: option.splits)
  then show ?case using match_at_min by simp
next
  case (2 fl r adv p pv c rs)
  show ?case
  proof (cases "match_at fl r adv p pv (c # rs)")
    case (Some e')
    with "2.prems" have "e' = e" "s = p" by simp_all
    with Some show ?thesis using match_at_min by simp
  next
    case None
    with "2.prems" have "scan fl r False (p + 1) (Some c) rs = Some (s, e)" by simp
    from "2.IH"[OF None this] show ?thesis .
  qed
qed

text \<open>The matches of \<open>finditer\<close> lie in the text, one after the other.\<close>

lemma finditer_from_chain:
  "sorted_wrt (\<lambda>m m'. m_end m \<le> m_start m') (finditer_from fl r adv st) \<and>
   (\<forall>m \<in> set (finditer_from fl r adv st).
      m_pos st \<le> m_start m \<and> m_start m + min_len r \<le> m_end m \<and>
      m_end m \<le> m_pos st + length (m_rest st))"
proof (induction fl r adv st rule: finditer_from.induct)
  case (1 fl r adv st)
  show ?case
  proof (cases "scan fl r adv (m_pos st) (m_prev st) (m_rest st)")
    case None
    then show ?thesis by (simp add: finditer_from.simps)
  next
    case (Some m)
    obtain s0 e where m: "m = (s0, e)" by (cases m)
    from scan_reach[of fl r adv "m_pos st" "m_prev st" "m_rest st" s0 e] Some m
    obtain j pv' where j: "j \<le> length (m_rest st)" "s0 = m_pos st + j"
      "reach (gnames r) (St s0 pv' (drop j (m_rest st)) []) e" by blast
    from j(3) obtain n where n: "n \<le> length (m_rest st) - j" "m_pos e = s0 + n"
      "m_rest e = drop n (drop j (m_rest st))"
      unfolding reach_def by auto
    from scan_min[of fl r adv "m_pos st" "m_prev st" "m_rest st" s0 e] Some m
    have mn: "s0 + min_len r \<le> m_pos e" by simp
    have eq: "finditer_from fl r adv st = m # finditer_from fl r (m_end m = m_start m) (snd m)"
      using Some by (subst finditer_from.simps) simp
    have bound: "m_pos e + length (m_rest e) = m_pos st + length (m_rest st)"
      using j n by simp
    from "1.IH"[OF Some] have ih:
      "sorted_wrt (\<lambda>m m'. m_end m \<le> m_start m') (finditer_from fl r (m_end m = m_start m) (snd m))"
      "\<forall>m' \<in> set (finditer_from fl r (m_end m = m_start m) (snd m)).
          m_pos e \<le> m_start m' \<and> m_start m' + min_len r \<le> m_end m' \<and>
          m_end m' \<le> m_pos e + length (m_rest e)"
      by (simp_all add: m)
    show ?thesis
      unfolding eq using ih j n mn bound
      by (auto simp: m m_end_def m_start_def)
  qed
qed

lemma min_len_start: "min_len DOCUMENT_START_PATTERN = 4"
  by (simp add: DOCUMENT_START_PATTERN_def act_keywords_def ascii_def)

lemma boundaries_sorted:
  "sorted_wrt (<) (boundaries mc) \<and> (\<forall>s \<in> set (boundaries mc). s < length mc)"
proof -
  let ?ms = "finditer_from start_flags DOCUMENT_START_PATTERN False (St 0 None mc [])"
  from finditer_from_chain [of start_flags DOCUMENT_START_PATTERN False "St 0 None mc []"]
  have ch: "sorted_wrt (\<lambda>m m'. m_end m \<le> m_start m') ?ms"
    and bd: "\<forall>m \<in> set ?ms. m_start m + 4 \<le> m_end m \<and> m_end m \<le> length mc"
    by (simp_all add: min_len_start)
  have "sorted_wrt (\<lambda>m m'. m_start m < m_start m') ?ms"
    using ch bd by (rule_tac sorted_wrt_mono_rel[where P = "\<lambda>m m'. m_end m \<le> m_start m'"]) fastforce+
  then have 1: "sorted_wrt (<) (boundaries mc)"
    by (simp add: boundaries_def finditer_def sorted_wrt_map)
  have 2: "\<forall>s \<in> set (boundaries mc). s < length mc"
    using bd by (fastforce simp: boundaries_def finditer_def)
  from 1 2 show ?thesis by blast
qed

lemma segment_bounds_nth:
  "i < length starts \<Longrightarrow>
     segment_bounds n starts ! i = (starts ! i, if i + 1 < length starts then starts ! (i + 1) else n)"
  by (simp add: segment_bounds_def)

lemma length_segment_bounds: "length (segment_bounds n starts) = length starts"
  by (simp add: segment_bounds_def)

lemma segment_bounds_rec:
  "segment_bounds n [] = []"
  "segment_bounds n [s] = [(s, n)]"
  "segment_bounds n (s # s' # ss) = (s, s') # segment_bounds n (s' # ss)"
  by (simp_all add: segment_bounds_def map_upt_Suc del: upt_Suc)

lemma concat_slices:
  "sorted_wrt (<) starts \<Longrightarrow> \<forall>s \<in> set starts. s \<le> length t \<Longrightarrow> starts \<noteq> [] \<Longrightarrow>
     concat (map (\<lambda>se. slice t (fst se) (snd se)) (segment_bounds (length t) starts)) =
       drop (hd starts) t"
proof (induction starts rule: induct_list012)
  case 1
  then show ?case by simp
next
  case (2 s)
  then show ?case by (simp add: segment_bounds_rec slice_def)
next
  case (3 s s' ss)
  have le: "s \<le> s'" using "3.prems"(1) by simp
  have "concat (map (\<lambda>se. slice t (fst se) (snd se)) (segment_bounds (length t) (s' # ss))) = drop s' t"
    using "3.IH"(2) "3.prems" by simp
  moreover have "take (s' - s) (drop s t) @ drop s' t = drop s t"
  proof -
    have "drop s' t = drop (s' - s) (drop s t)" using le by simp
    then show ?thesis by (metis append_take_drop_id)
  qed
  ultimately show ?case by (simp add: segment_bounds_rec slice_def)
qed

lemma segments_two:
  "find_content_start (pre_clean_gazette content_two) = content_two \<and>
   boundaries content_two = [2, 8] \<and>
   doc_texts content_two = [ascii ''Loi a'' @ [10], ascii ''Loi b'']"
  by (simp add: ev_gazette content_two_def del: ev_del)

section \<open>The spans of the captured groups\<close>

lemma lit_match_caps: "lit_match fl s st = Some st' \<Longrightarrow> m_caps st' = m_caps st"
proof (induction fl s st rule: lit_match.induct)
  case (3 fl x xs p pv c r cs)
  then show ?case by (simp split: if_splits)
qed simp_all

lemma rep_lazy_caps:
  "rep_lazy fl a k m st = Some x \<Longrightarrow>
     \<exists>st'. m_caps st' = m_caps st \<and> m_pos st \<le> m_pos st' \<and> k st' = Some x"
proof (induction fl a k m st rule: rep_lazy.induct)
  case (1 fl a k m p pv cs)
  then have "k (St p pv [] cs) = Some x" by (simp_all split: if_splits)
  then show ?case by (intro exI[of _ "St p pv [] cs"]) simp
next
  case (2 fl a k m p pv c r cs)
  show ?case
  proof (cases "(if m = 0 then k (St p pv (c # r) cs) else None)")
    case (Some y)
    with "2.prems" have "k (St p pv (c # r) cs) = Some x" by (simp_all split: if_splits)
    then show ?thesis by (intro exI[of _ "St p pv (c # r) cs"]) simp
  next
    case None
    with "2.prems" have ok: "atom_ok fl a c"
      and rc: "rep_lazy fl a k (m - 1) (St (p + 1) (Some c) r cs) = Some x"
      by (auto split: if_splits)
    from "2.IH"[OF None ok rc] obtain st' where "m_caps st' = cs" "p + 1 \<le> m_pos st'" "k st' = Some x"
      by auto
    then show ?thesis by (intro exI[of _ st']) simp
  qed
qed

lemma rep_greedy_caps:
  "rep_greedy fl a k m st = Some x \<Longrightarrow>
     \<exists>st'. m_caps st' = m_caps st \<and> m_pos st \<le> m_pos st' \<and> k st' = Some x"
proof (induction fl a k m st rule: rep_greedy.induct)
  case (1 fl a k m p pv cs)
  then have "k (St p pv [] cs) = Some x" by (simp_all split: if_splits)
  then show ?case by (intro exI[of _ "St p pv [] cs"]) simp
next
  case (2 fl a k m p pv c r cs)
  show ?case
  proof (cases "atom_ok fl a c \<and> rep_greedy fl a k (m - 1) (St (p + 1) (Some c) r cs) \<noteq> None")
    case True
    then obtain y where y: "rep_greedy fl a k (m - 1) (St (p + 1) (Some c) r cs) = Some y" by auto
    with True "2.prems" have "y = x" by simp
    with "2.IH" True y obtain st' where "m_caps st' = cs" "p + 1 \<le> m_pos st'" "k st' = Some x" by auto
    then show ?thesis by (intro exI[of _ st']) simp
  next
    case False
    with "2.prems" have "k (St p pv (c # r) cs) = Some x" by (auto split: if_splits)
    then show ?thesis by (intro exI[of _ "St p pv (c # r) cs"]) simp
  qed
qed

lemma rxk_caps:
  "rxk fl r k st = Some x \<Longrightarrow> caps_ok lo st \<Longrightarrow> lo \<le> m_pos st \<Longrightarrow>
     \<exists>st'. caps_ok lo st' \<and> m_pos st \<le> m_pos st' \<and> k st' = Some x"
proof (induction r arbitrary: k st x)
  case (Atom a)
  then obtain c r where cr: "m_rest st = c # r"
    "k (St (m_pos st + 1) (Some c) r (m_caps st)) = Some x"
    by (auto split: list.splits if_splits)
  with Atom.prems(2) show ?case
    by (intro exI[of _ "St (m_pos st + 1) (Some c) r (m_caps st)"]) (simp add: caps_ok_def)
next
  case (Lit s)
  then obtain st' where s: "lit_match fl s st = Some st'" "k st' = Some x"
    by (auto split: option.splits)
  from lit_match_caps[OF s(1)] lit_match_reach[OF s(1)] Lit.prems(2) s(2) show ?case
    by (intro exI[of _ st']) (auto simp: caps_ok_def reach_def)
next
  case (Rep g m a)
  from Rep.prems(1) obtain st' where "m_caps st' = m_caps st" "m_pos st \<le> m_pos st'" "k st' = Some x"
    using rep_lazy_caps[of fl a k m st x] rep_greedy_caps[of fl a k m st x] by (cases g) auto
  with Rep.prems(2) show ?case by (intro exI[of _ st']) (simp add: caps_ok_def)
next
  case (Seq a b)
  from Seq.prems have "rxk fl a (rxk fl b k) st = Some x" by simp
  from Seq.IH(1)[OF this Seq.prems(2,3)] obtain s1 where
    s1: "caps_ok lo s1" "m_pos st \<le> m_pos s1" "rxk fl b k s1 = Some x" by blast
  have "lo \<le> m_pos s1" using s1(2) Seq.prems(3) by simp
  from Seq.IH(2)[OF s1(3) s1(1) this] obtain s2 where
    s2: "caps_ok lo s2" "m_pos s1 \<le> m_pos s2" "k s2 = Some x" by blast
  from s1(2) s2 show ?case by (intro exI[of _ s2]) simp
next
  case (Alt a b)
  show ?case
  proof (cases "rxk fl a k st")
    case None
    with Alt.prems have "rxk fl b k st = Some x" by simp
    from Alt.IH(2)[OF this Alt.prems(2,3)] show ?thesis .
  next
    case (Some y)
    with Alt.prems have "rxk fl a k st = Some x" by simp
    from Alt.IH(1)[OF this Alt.prems(2,3)] show ?thesis .
  qed
next
  case Eps
  then show ?case by (intro exI[of _ st]) simp
next
  case Bol
  then show ?case by (intro exI[of _ st]) (simp split: if_splits)
next
  case Eol
  then show ?case by (intro exI[of _ st]) (simp split: list.splits if_splits)
next
  case (Group n r)
  let ?k = "\<lambda>e. k (St (m_pos e) (m_prev e) (m_rest e) ((n, m_pos st, m_pos e) # m_caps e))"
  from Group.prems have "rxk fl r ?k st = Some x" by simp
  from Group.IH[OF this Group.prems(2,3)] obtain e where
    e: "caps_ok lo e" "m_pos st \<le> m_pos e" "?k e = Some x" by blast
  with Group.prems(3) show ?case
    by (intro exI[of _ "St (m_pos e) (m_prev e) (m_rest e) ((n, m_pos st, m_pos e) # m_caps e)"])
       (simp add: caps_ok_def)
next
  case (Look r)
  from Look.prems(1) obtain e where e: "rxk fl r Some st = Some e"
    "k (St (m_pos st) (m_prev st) (m_rest st) (m_caps e)) = Some x"
    by (auto split: option.splits)
  from Look.IH[OF e(1) Look.prems(2,3)] have "caps_ok lo e" by auto
  with e(2) show ?case
    by (intro exI[of _ "St (m_pos st) (m_prev st) (m_rest st) (m_caps e)"]) (simp add: caps_ok_def)
qed

lemma match_at_caps:
  "match_at fl r adv p pv rs = Some e \<Longrightarrow> caps_ok p e"
  unfolding match_at_def
  using rxk_caps[of fl r "\<lambda>e. if adv \<and> m_pos e = p then None else Some e" "St p pv rs []" e p]
  by (auto simp: caps_ok_def split: if_splits)

lemma scan_caps:
  "scan fl r adv p pv rs = Some (s, e) \<Longrightarrow> caps_ok s e"
proof (induction fl r adv p pv rs rule: scan.induct)
  case (1 fl r adv p pv)
  then have "match_at fl r adv p pv [] = Some e" "s = p" by (auto split: option.splits)
  then show ?case using match_at_caps by simp
next
  case (2 fl r adv p pv c rs)
  show ?case
  proof (cases "match_at fl r adv p pv (c # rs)")
    case (Some e')
    with "2.prems" have "e' = e" "s = p" by simp_all
    with Some show ?thesis using match_at_caps by simp
  next
    case None
    with "2.prems" have "scan fl r False (p + 1) (Some c) rs = Some (s, e)" by simp
    from "2.IH"[OF None this] show ?thesis .
  qed
qed

lemma finditer_from_caps:
  "\<forall>m \<in> set (finditer_from fl r adv st). caps_ok (m_start m) (snd m)"
proof (induction fl r adv st rule: finditer_from.induct)
  case (1 fl r adv st)
  show ?case
  proof (cases "scan fl r adv (m_pos st) (m_prev st) (m_rest st)")
    case None
    then show ?thesis by (simp add: finditer_from.simps)
  next
    case (Some m)
    have eq: "finditer_from fl r adv st = m # finditer_from fl r (m_end m = m_start m) (snd m)"
      using Some by (subst finditer_from.simps) simp
    have "caps_ok (m_start m) (snd m)"
      using scan_caps[of fl r adv "m_pos st" "m_prev st" "m_rest st" "fst m" "snd m"] Some
      by (simp add: m_start_def)
    with "1.IH"[OF Some] show ?thesis unfolding eq by simp
  qed
qed

lemma map_of_shift:
  "map_of (map (\<lambda>g. (fst g, fst (snd g) + off, snd (snd g) + off)) cs) n =
     map_option (\<lambda>se. (fst se + off, snd se + off)) (map_of cs n)"
  by (induction cs) auto

lemma slice_drop: "slice (drop off t) a b = slice t (a + off) (b + off)"
  by (simp add: slice_def add.commute)

lemma group_get_shift:
  "group_get (drop off t) (m_groups m) n dflt = group_get t (m_groups (shift_match off m)) n dflt"
  by (simp add: group_get_def shift_match_def m_groups_def map_of_shift slice_drop
      split: option.splits)

lemma article_of_shift: "article_of (drop off t) m = article_of t (shift_match off m)"
  by (simp add: article_of_def group_get_shift)

lemma parse_articles_shift:
  "parse_articles (drop off t) = map (article_of t) (article_matches t off)"
  by (simp add: parse_articles_def article_matches_def article_of_shift)

lemma min_len_article: "min_len ARTICLE_PATTERN = 6"
  by (simp add: ARTICLE_PATTERN_def article_marker_def opt_def ascii_def)

lemma re_search_bounds:
  assumes "re_search fl r t = Some m"
  shows "m_start m \<le> m_end m \<and> m_end m \<le> length t"
proof -
  obtain s e where m: "m = (s, e)" by (cases m)
  from assms have "scan fl r False 0 None t = Some (s, e)" by (simp add: re_search_def m)
  from scan_reach [OF this] obtain j pv' where j: "j \<le> length t" "s = 0 + j"
    "reach (gnames r) (St s pv' (drop j t) []) e" by blast
  from j(3) obtain n where "n \<le> length t - j" "m_pos e = s + n" unfolding reach_def by auto
  with j show ?thesis by (simp add: m m_start_def m_end_def)
qed

lemma article_matches_spans:
  assumes "off \<le> length t" and "m \<in> set (article_matches t off)"
  shows "off \<le> m_start m \<and> m_start m < m_end m \<and> m_end m \<le> length t \<and>
         (\<forall>g \<in> set (m_groups m). m_start m \<le> fst (snd g) \<and> fst (snd g) \<le> snd (snd g))"
proof -
  let ?ms = "finditer_from article_flags ARTICLE_PATTERN False (St 0 None (drop off t) [])"
  from assms(2) obtain m0 where m0: "m0 \<in> set ?ms" "m = shift_match off m0"
    by (auto simp: article_matches_def finditer_def)
  from finditer_from_chain [of article_flags ARTICLE_PATTERN False "St 0 None (drop off t) []"] m0(1)
  have b: "m_start m0 + 6 \<le> m_end m0" "m_end m0 \<le> length t - off"
    by (simp_all add: min_len_article)
  from finditer_from_caps [of article_flags ARTICLE_PATTERN False "St 0 None (drop off t) []"] m0(1)
  have c: "caps_ok (m_start m0) (snd m0)" by blast
  have 1: "off \<le> m_start m" "m_start m < m_end m" "m_end m \<le> length t"
    using b assms(1) by (simp_all add: m0(2) shift_match_def m_start_def m_end_def)
  have 2: "\<forall>g \<in> set (m_groups m). m_start m \<le> fst (snd g) \<and> fst (snd g) \<le> snd (snd g)"
    using c by (auto simp: m0(2) shift_match_def m_start_def m_groups_def caps_ok_def)
  from 1 2 show ?thesis by blast
qed

lemma article_matches_full:
  "article_matches seg_full 24 =
     [(34, St 45 (Some 98) [] [(''content'', 44, 45), (''number'', 40, 41)])]"
  by (simp add: ev_parse article_matches_def shift_match_def seg_full_def del: ev_del)

section \<open>Claims\<close>

text \<open>
  C6. The classifier is a total function of the document type: its result is the
  category of the first entry of the ordered keyword table whose keyword occurs in
  the lower-cased type, \<open>Uncategorized\<close> when none occurs, and so always one of the
  seven categories.
\<close>

theorem classify_first_keyword:
  "classify d = first_keyword_category (document_type d) \<and> classify d \<in> set categories"
  unfolding classify_def first_keyword_category_def keyword_table_def categories_def Let_def
  by simp

lemma classify_order_example:
  "classify \<lparr>document_type = ascii ''Loi portant D'' @ [201] @ ascii ''CRET'', official_number = [], date = [],
      title = [], articles = [], category = None\<rparr> = ascii ''Decree''"
  by (simp add: classify_def lower_def tolower_fast ascii_def)

text \<open>
  C8. A document with N > 0 articles gives exactly N chunks, in article order, each with
  the text \<open>Article {number}: {content}\<close> and the article's number in its metadata;
  a document without articles gives one chunk \<open>{document_type}: {title}\<close> with the
  article number \<open>N/A\<close>; every chunk carries the document's type, number, date
  and category.
\<close>

theorem chunk_document_law:
  "length (chunk_document d) = (if articles d = [] then 1 else length (articles d)) \<and>
   (\<forall>i < length (articles d).
      chunk_text (chunk_document d ! i) =
        ascii ''Article '' @ number (articles d ! i) @ ascii '': '' @ content (articles d ! i) \<and>
      source_article_number (metadata (chunk_document d ! i)) = number (articles d ! i)) \<and>
   (articles d = [] \<longrightarrow>
      chunk_text (chunk_document d ! 0) = document_type d @ ascii '': '' @ title d \<and>
      source_article_number (metadata (chunk_document d ! 0)) = NA) \<and>
   (\<forall>c \<in> set (chunk_document d).
      source_document_type (metadata c) = document_type d \<and>
      source_official_number (metadata c) = official_number d \<and>
      source_date (metadata c) = date d \<and>
      source_category (metadata c) = category d)"
  by (auto simp: chunk_document_def article_chunk_def base_metadata_def)

theorem chunk_document_law_witness:
  "length (chunk_document two_article_doc) = 2 \<and>
   chunk_text (chunk_document two_article_doc ! 1) = ascii ''Article 2: b'' \<and>
   source_article_number (metadata (chunk_document two_article_doc ! 1)) = ascii ''2'' \<and>
   source_category (metadata (chunk_document two_article_doc ! 1)) = Some (ascii ''Law'') \<and>
   length (chunk_document (two_article_doc\<lparr>articles := []\<rparr>)) = 1 \<and>
   chunk_text (chunk_document (two_article_doc\<lparr>articles := []\<rparr>) ! 0) = ascii ''Loi: finances'' \<and>
   source_article_number (metadata (chunk_document (two_article_doc\<lparr>articles := []\<rparr>) ! 0)) = NA"
proof -
  have a: "articles two_article_doc \<noteq> []" "length (articles two_article_doc) = 2"
    "articles two_article_doc ! 1 = \<lparr>number = ascii ''2'', content = ascii ''b''\<rparr>"
    by (simp_all add: two_article_doc_def)
  have m: "chunk_document two_article_doc ! 1 \<in> set (chunk_document two_article_doc)"
    using chunk_document_law [of two_article_doc] a by simp
  have c: "category two_article_doc = Some (ascii ''Law'')" by (simp add: two_article_doc_def)
  have e: "articles (two_article_doc\<lparr>articles := []\<rparr>) = []"
    "document_type (two_article_doc\<lparr>articles := []\<rparr>) = ascii ''Loi''"
    "title (two_article_doc\<lparr>articles := []\<rparr>) = ascii ''finances''"
    by (simp_all add: two_article_doc_def)
  show ?thesis
    using chunk_document_law [of two_article_doc] chunk_document_law [of "two_article_doc\<lparr>articles := []\<rparr>"]
      a m c e
    by (simp add: ascii_def)
qed

text \<open>
  C4. Header extraction tries the full-header pattern first and the individual-decision
  pattern only when the full-header pattern fails; when both fail, \<open>parse_document\<close>
  returns \<open>None\<close> and the segment gives no document; the flag \<open>is_individual\<close> is
  true exactly when the individual-decision pattern supplied the match.
\<close>

theorem header_precedence:
  "(\<forall>m. re_search header_flags DOCUMENT_HEADER_PATTERN t = Some m \<longrightarrow>
        header_stage t = Some (m, False)) \<and>
   (re_search header_flags DOCUMENT_HEADER_PATTERN t = None \<longrightarrow>
        header_stage t =
          map_option (\<lambda>m. (m, True)) (re_search individual_flags INDIVIDUAL_DECISION_PATTERN t)) \<and>
   (re_search header_flags DOCUMENT_HEADER_PATTERN t = None \<and>
    re_search individual_flags INDIVIDUAL_DECISION_PATTERN t = None \<longrightarrow>
        header_stage t = None \<and> parse_document t = None \<and> parse_segments [t] = []) \<and>
   (\<forall>m is_individual. header_stage t = Some (m, is_individual) \<longrightarrow>
        (is_individual \<longleftrightarrow>
           re_search header_flags DOCUMENT_HEADER_PATTERN t = None \<and>
           re_search individual_flags INDIVIDUAL_DECISION_PATTERN t = Some m))"
proof (cases "re_search header_flags DOCUMENT_HEADER_PATTERN t")
  case None
  show ?thesis
  proof (cases "re_search individual_flags INDIVIDUAL_DECISION_PATTERN t")
    case N2: None
    have "header_stage t = None" by (simp add: header_stage_def None N2)
    then show ?thesis by (simp add: None N2 parse_document_def)
  next
    case (Some m)
    have "header_stage t = Some (m, True)" by (simp add: header_stage_def None Some)
    then show ?thesis by (simp add: None Some)
  qed
next
  case (Some m)
  have "header_stage t = Some (m, False)" by (simp add: header_stage_def Some)
  then show ?thesis by (simp add: Some)
qed

theorem header_precedence_witness:
  "header_stage seg_none = None \<and> parse_document seg_none = None \<and> parse_segments [seg_none] = [] \<and>
   re_search header_flags DOCUMENT_HEADER_PATTERN seg_individual = None \<and>
   (\<exists>m. re_search individual_flags INDIVIDUAL_DECISION_PATTERN seg_individual = Some m \<and>
        header_stage seg_individual = Some (m, True)) \<and>
   (\<exists>m. re_search header_flags DOCUMENT_HEADER_PATTERN seg_full = Some m \<and>
        header_stage seg_full = Some (m, False))"
proof -
  have hn: "re_search header_flags DOCUMENT_HEADER_PATTERN seg_none = None"
    using header_stage_none unfolding header_stage_def by (simp split: option.splits)
  have "re_search individual_flags INDIVIDUAL_DECISION_PATTERN seg_none = None"
    using header_stage_none hn unfolding header_stage_def by (simp split: option.splits)
  with hn header_precedence [of seg_none]
  have 1: "header_stage seg_none = None \<and> parse_document seg_none = None \<and> parse_segments [seg_none] = []"
    by blast
  obtain mi where mi: "header_stage seg_individual = Some (mi, True)"
    using header_stage_individual by blast
  with header_precedence [of seg_individual]
  have 2: "re_search header_flags DOCUMENT_HEADER_PATTERN seg_individual = None \<and>
           re_search individual_flags INDIVIDUAL_DECISION_PATTERN seg_individual = Some mi"
    by blast
  obtain mf where mf: "header_stage seg_full = Some (mf, False)"
    using header_stage_full by blast
  have 3: "re_search header_flags DOCUMENT_HEADER_PATTERN seg_full = Some mf"
  proof (cases "re_search header_flags DOCUMENT_HEADER_PATTERN seg_full")
    case None
    with header_precedence [of seg_full] mf show ?thesis by (cases "re_search individual_flags INDIVIDUAL_DECISION_PATTERN seg_full") simp_all
  next
    case (Some m)
    with header_precedence [of seg_full] mf show ?thesis by simp
  qed
  show ?thesis using 1 2 3 mi mf by blast
qed

text \<open>
  C5. A matched segment whose cleaned title is \<open>N/A\<close> and that has no article is
  rejected in \<open>parse_document\<close>, before the allowlist is looked at; a parsed document
  whose number is \<open>N/A\<close> and that has no article is rejected unless its title
  contains \<open>nomination\<close> or \<open>mettant fin\<close>; every other parsed document is kept;
  a rejection leaves the documents of the other segments as they are.
\<close>

theorem validator_rules:
  "(\<forall>hm. header_stage t = Some hm \<longrightarrow>
      parse_document t =
        (if title (build_document t hm) = NA \<and> articles (build_document t hm) = [] then None
         else Some (build_document t hm))) \<and>
   (parse_document t = None \<longrightarrow> parse_segments [t] = []) \<and>
   (\<forall>d. parse_document t = Some d \<longrightarrow>
      \<not> (title d = NA \<and> articles d = []) \<and>
      parse_segments [t] =
        (if official_number d = NA \<and> articles d = [] \<and>
            \<not> (contains (ascii ''nomination'') (title d) \<or> contains (ascii ''mettant fin'') (title d))
         then [] else [d])) \<and>
   parse_segments (ts @ t # us) = parse_segments ts @ parse_segments [t] @ parse_segments us"
proof (intro conjI allI impI)
  fix hm assume "header_stage t = Some hm"
  then show "parse_document t =
        (if title (build_document t hm) = NA \<and> articles (build_document t hm) = [] then None
         else Some (build_document t hm))" by (rule parse_document_stage)
next
  assume "parse_document t = None"
  then show "parse_segments [t] = []" by (simp add: parse_segments_single)
next
  fix d assume "parse_document t = Some d"
  then show "\<not> (title d = NA \<and> articles d = [])" by (rule parse_document_Some)
next
  fix d assume "parse_document t = Some d"
  then show "parse_segments [t] =
        (if official_number d = NA \<and> articles d = [] \<and>
            \<not> (contains (ascii ''nomination'') (title d) \<or> contains (ascii ''mettant fin'') (title d))
         then [] else [d])"
    by (simp add: parse_segments_single allowlisted_def)
next
  show "parse_segments (ts @ t # us) = parse_segments ts @ parse_segments [t] @ parse_segments us"
    using parse_segments_append [of ts "[t] @ us"] parse_segments_append [of "[t]" us] by simp
qed

theorem validator_rules_witness:
  "parse_document seg_na = None \<and> parse_segments [seg_na] = [] \<and>
   parse_segments [seg_upper] = [] \<and>
   parse_segments [seg_individual] =
     [\<lparr>document_type = ascii ''Arr'' @ [234] @ ascii ''t'' @ [233], official_number = ascii ''N/A'',
       date = ascii ''1'', title = ascii ''mettant fin'', articles = [], category = None\<rparr>] \<and>
   parse_segments [seg_na, seg_upper, seg_individual] = parse_segments [seg_individual]"
proof -
  have na: "parse_document seg_na = None" using parse_document_na by simp
  have 1: "parse_segments [seg_na] = []"
    using validator_rules [of seg_na "[]" "[]"] na by blast
  have 2: "parse_segments [seg_upper] = []"
    using validator_rules [of seg_upper "[]" "[]"] parse_document_upper
    by (simp add: NA_def ascii_def)
  have 3: "parse_segments [seg_individual] =
     [\<lparr>document_type = ascii ''Arr'' @ [234] @ ascii ''t'' @ [233], official_number = ascii ''N/A'',
       date = ascii ''1'', title = ascii ''mettant fin'', articles = [], category = None\<rparr>]"
    using validator_rules [of seg_individual "[]" "[]"] parse_document_individual
    by (simp add: NA_def ascii_def)
  have 4: "parse_segments ([seg_na] @ seg_upper # [seg_individual]) =
      parse_segments [seg_na] @ parse_segments [seg_upper] @ parse_segments [seg_individual]"
    using validator_rules [of seg_upper "[seg_na]" "[seg_individual]"] by blast
  have 5: "parse_segments [seg_na, seg_upper, seg_individual] = parse_segments [seg_individual]"
    using 4 unfolding 1 2 by simp
  show ?thesis using na 1 2 3 5 by blast
qed

text \<open>
  C9. Scenario B gives exactly one document, matched by the individual-decision pattern
  (\<open>is_individual\<close> true), with the number \<open>N/A\<close> and no articles, kept by the
  allowlist; its chunking gives one title chunk with the article number \<open>N/A\<close>.
  And every document matched in individual-decision mode has the number \<open>N/A\<close>,
  as that pattern has no group for a number.
\<close>

theorem individual_scenario:
  "process_full_gazette scenario_B = [document_B] \<and>
   (\<exists>m. header_stage scenario_B = Some (m, True)) \<and>
   official_number document_B = NA \<and> articles document_B = [] \<and> allowlisted document_B \<and>
   pipeline_chunks scenario_B =
     [\<lparr>chunk_text = ascii ''D'' @ [233] @ ascii ''cret pr'' @ [233] @
                     ascii ''sidentiel: mettant fin aux fonctions de M. X.'',
       metadata = \<lparr>source_document_type = ascii ''D'' @ [233] @ ascii ''cret pr'' @ [233] @ ascii ''sidentiel'',
                   source_official_number = ascii ''N/A'', source_date = ascii ''3 mars 2024'',
                   source_category = Some (ascii ''Decree''), source_article_number = ascii ''N/A''\<rparr>\<rparr>] \<and>
   (\<forall>t m d. header_stage t = Some (m, True) \<and> parse_document t = Some d \<longrightarrow>
      official_number d = NA \<and> articles d = [])"
proof -
  have d: "official_number document_B = NA" "articles document_B = []" "allowlisted document_B"
    by (simp_all add: document_B_def NA_def allowlisted_def ascii_def)
  have s: "parse_segments [scenario_B] = [document_B]"
    using d by (simp add: parse_segments_single parse_document_B)
  have p: "process_full_gazette scenario_B = [document_B]"
    using process_full_gazette_segments [of scenario_B scenario_B] segments_B s by simp
  have c: "pipeline_chunks scenario_B =
     [\<lparr>chunk_text = ascii ''D'' @ [233] @ ascii ''cret pr'' @ [233] @
                     ascii ''sidentiel: mettant fin aux fonctions de M. X.'',
       metadata = \<lparr>source_document_type = ascii ''D'' @ [233] @ ascii ''cret pr'' @ [233] @ ascii ''sidentiel'',
                   source_official_number = ascii ''N/A'', source_date = ascii ''3 mars 2024'',
                   source_category = Some (ascii ''Decree''), source_article_number = ascii ''N/A''\<rparr>\<rparr>]"
    unfolding pipeline_chunks_def pipeline_documents_def p
    by (simp add: classify_all_def classify_def chunk_document_def base_metadata_def document_B_def
        lower_def tolower_eval NA_def ascii_def)
  have g: "\<forall>t m d. header_stage t = Some (m, True) \<and> parse_document t = Some d \<longrightarrow>
      official_number d = NA \<and> articles d = []"
  proof (intro allI impI)
    fix t m d assume a: "header_stage t = Some (m, True) \<and> parse_document t = Some d"
    then have "d = build_document t (m, True)"
      using parse_document_stage [of t "(m, True)"] by (simp split: if_splits)
    with individual_no_number a show "official_number d = NA \<and> articles d = []" by blast
  qed
  show ?thesis using p header_stage_B d c g by blast
qed

theorem individual_scenario_witness:
  "\<exists>d. parse_document seg_individual = Some d \<and> official_number d = NA \<and> articles d = []"
  using individual_scenario header_stage_individual parse_document_individual by blast

text \<open>
  C10. The allowlist test is case-sensitive: a parsed document with the number \<open>N/A\<close>
  and no articles is kept exactly when its cleaned title contains \<open>nomination\<close> or
  \<open>mettant fin\<close> in lower case; the segment in capitals is matched by the
  individual-decision pattern, which ignores case, and its document is dropped, while
  the same segment in lower case is kept.
\<close>

theorem allowlist_case_sensitive:
  "(\<forall>t d. parse_document t = Some d \<and> official_number d = NA \<and> articles d = [] \<longrightarrow>
      (parse_segments [t] = [d] \<longleftrightarrow>
         contains (ascii ''nomination'') (title d) \<or> contains (ascii ''mettant fin'') (title d))) \<and>
   (\<exists>m. header_stage seg_upper = Some (m, True)) \<and>
   (\<exists>d. parse_document seg_upper = Some d \<and> title d = ascii ''METTANT FIN'') \<and>
   process_full_gazette seg_upper = [] \<and>
   length (process_full_gazette seg_individual) = 1"
proof -
  have g: "\<forall>t d. parse_document t = Some d \<and> official_number d = NA \<and> articles d = [] \<longrightarrow>
      (parse_segments [t] = [d] \<longleftrightarrow>
         contains (ascii ''nomination'') (title d) \<or> contains (ascii ''mettant fin'') (title d))"
    by (simp add: parse_segments_single allowlisted_def)
  have u: "parse_segments [seg_upper] = []"
    by (simp add: parse_segments_single parse_document_upper allowlisted_def NA_def ascii_def)
  have pu: "process_full_gazette seg_upper = []"
    using process_full_gazette_segments [of seg_upper seg_upper] segments_upper u by simp
  have i: "length (parse_segments [seg_individual]) = 1"
    by (simp add: parse_segments_single parse_document_individual allowlisted_def NA_def ascii_def)
  have pi: "length (process_full_gazette seg_individual) = 1"
    using process_full_gazette_segments [of seg_individual seg_individual] segments_individual i by simp
  show ?thesis using g header_stage_upper parse_document_upper pu pi by simp
qed

theorem allowlist_case_sensitive_witness:
  "parse_segments [seg_upper] \<noteq>
     [\<lparr>document_type = ascii ''Arr'' @ [234] @ ascii ''t'' @ [233], official_number = ascii ''N/A'',
       date = ascii ''1'', title = ascii ''METTANT FIN'', articles = [], category = None\<rparr>]"
proof -
  let ?d = "\<lparr>document_type = ascii ''Arr'' @ [234] @ ascii ''t'' @ [233], official_number = ascii ''N/A'',
       date = ascii ''1'', title = ascii ''METTANT FIN'', articles = [], category = None\<rparr>"
  have a: "parse_document seg_upper = Some ?d \<and> official_number ?d = NA \<and> articles ?d = []"
    using parse_document_upper by (simp add: NA_def)
  have b: "\<not> (contains (ascii ''nomination'') (title ?d) \<or> contains (ascii ''mettant fin'') (title ?d))"
    by (simp add: ascii_def)
  from allowlist_case_sensitive a b show ?thesis by blast
qed

text \<open>
  C2. As stated, the segments cover the whole content. They do not: the text before the
  first boundary belongs to no segment.
\<close>

theorem segments_cover_counterexample:
  "find_content_start (pre_clean_gazette content_two) = content_two \<and>
   concat (doc_texts content_two) \<noteq> content_two"
  using segments_two by (simp add: content_two_def ascii_def)

text \<open>
  C2, amended. There is one segment for each boundary, in the order of the boundaries;
  segment \<open>i\<close> starts at boundary \<open>i\<close>, is not empty, ends where segment \<open>i + 1\<close>
  starts, and the last segment ends at the length of the content; together the
  segments are the content from the first boundary on (nothing when there is no
  boundary).
\<close>

theorem segments_from_first_boundary:
  "length (doc_texts mc) = length (boundaries mc) \<and>
   (\<forall>i < length (boundaries mc).
      doc_texts mc ! i =
        slice mc (fst (segment_bounds (length mc) (boundaries mc) ! i))
                 (snd (segment_bounds (length mc) (boundaries mc) ! i)) \<and>
      fst (segment_bounds (length mc) (boundaries mc) ! i) = boundaries mc ! i \<and>
      fst (segment_bounds (length mc) (boundaries mc) ! i) <
        snd (segment_bounds (length mc) (boundaries mc) ! i) \<and>
      (Suc i < length (boundaries mc) \<longrightarrow>
         snd (segment_bounds (length mc) (boundaries mc) ! i) =
           fst (segment_bounds (length mc) (boundaries mc) ! Suc i)) \<and>
      (Suc i = length (boundaries mc) \<longrightarrow>
         snd (segment_bounds (length mc) (boundaries mc) ! i) = length mc)) \<and>
   concat (doc_texts mc) = (if boundaries mc = [] then [] else drop (hd (boundaries mc)) mc)"
proof -
  let ?bs = "boundaries mc"
  have srt: "sorted_wrt (<) ?bs" and bd: "\<forall>s \<in> set ?bs. s < length mc"
    using boundaries_sorted by blast+
  have len: "length (doc_texts mc) = length ?bs"
    by (simp add: doc_texts_def length_segment_bounds)
  have idx: "\<forall>i < length ?bs.
      doc_texts mc ! i =
        slice mc (fst (segment_bounds (length mc) ?bs ! i)) (snd (segment_bounds (length mc) ?bs ! i)) \<and>
      fst (segment_bounds (length mc) ?bs ! i) = ?bs ! i \<and>
      fst (segment_bounds (length mc) ?bs ! i) < snd (segment_bounds (length mc) ?bs ! i) \<and>
      (Suc i < length ?bs \<longrightarrow>
         snd (segment_bounds (length mc) ?bs ! i) = fst (segment_bounds (length mc) ?bs ! Suc i)) \<and>
      (Suc i = length ?bs \<longrightarrow> snd (segment_bounds (length mc) ?bs ! i) = length mc)"
  proof (intro allI impI)
    fix i assume i: "i < length ?bs"
    have a: "doc_texts mc ! i =
        slice mc (fst (segment_bounds (length mc) ?bs ! i)) (snd (segment_bounds (length mc) ?bs ! i))"
      using i by (simp add: doc_texts_def length_segment_bounds)
    have b: "fst (segment_bounds (length mc) ?bs ! i) = ?bs ! i"
      using i by (simp add: segment_bounds_nth)
    have c: "fst (segment_bounds (length mc) ?bs ! i) < snd (segment_bounds (length mc) ?bs ! i)"
    proof (cases "Suc i < length ?bs")
      case True
      then have "?bs ! i < ?bs ! Suc i" using srt by (simp add: sorted_wrt_nth_less)
      with True i show ?thesis by (simp add: segment_bounds_nth)
    next
      case False
      have "?bs ! i < length mc" using bd i by simp
      with False i show ?thesis by (simp add: segment_bounds_nth)
    qed
    have d: "Suc i < length ?bs \<longrightarrow>
         snd (segment_bounds (length mc) ?bs ! i) = fst (segment_bounds (length mc) ?bs ! Suc i)"
      using i by (simp add: segment_bounds_nth)
    have e: "Suc i = length ?bs \<longrightarrow> snd (segment_bounds (length mc) ?bs ! i) = length mc"
      using i by (auto simp: segment_bounds_nth)
    from a b c d e show "doc_texts mc ! i =
        slice mc (fst (segment_bounds (length mc) ?bs ! i)) (snd (segment_bounds (length mc) ?bs ! i)) \<and>
      fst (segment_bounds (length mc) ?bs ! i) = ?bs ! i \<and>
      fst (segment_bounds (length mc) ?bs ! i) < snd (segment_bounds (length mc) ?bs ! i) \<and>
      (Suc i < length ?bs \<longrightarrow>
         snd (segment_bounds (length mc) ?bs ! i) = fst (segment_bounds (length mc) ?bs ! Suc i)) \<and>
      (Suc i = length ?bs \<longrightarrow> snd (segment_bounds (length mc) ?bs ! i) = length mc)"
      by blast
  qed
  have cc: "concat (doc_texts mc) = (if ?bs = [] then [] else drop (hd ?bs) mc)"
  proof (cases "?bs = []")
    case True
    then show ?thesis by (simp add: doc_texts_def segment_bounds_rec)
  next
    case False
    have "\<forall>s \<in> set ?bs. s \<le> length mc" using bd by auto
    from concat_slices [OF srt this False] False show ?thesis by (simp add: doc_texts_def)
  qed
  from len idx cc show ?thesis by blast
qed

theorem segments_from_first_boundary_witness:
  "concat (doc_texts content_two) = drop 2 content_two \<and>
   segment_bounds (length content_two) (boundaries content_two) ! 0 = (2, 8) \<and>
   segment_bounds (length content_two) (boundaries content_two) ! 1 = (8, 13)"
proof -
  have b: "boundaries content_two = [2, 8]" using segments_two by simp
  have l: "length content_two = 13" by (simp add: content_two_def ascii_def)
  show ?thesis using segments_from_first_boundary [of content_two]
    by (simp add: b l segment_bounds_rec)
qed

text \<open>
  C3. When the full-header pattern matched a segment, the articles of its document are
  read from the matches of the article pattern in the text after the end of the header
  match: every such match starts at or after that end offset, is not empty and lies in
  the segment, and the spans of its number and content lie at or after its start.
\<close>

theorem article_span_discipline:
  "header_stage t = Some (hm, False) \<and> parse_document t = Some d \<longrightarrow>
     articles d = map (article_of t) (article_matches t (m_end hm)) \<and>
     (\<forall>m \<in> set (article_matches t (m_end hm)).
        m_end hm \<le> m_start m \<and> m_start m < m_end m \<and> m_end m \<le> length t \<and>
        (\<forall>g \<in> set (m_groups m). m_start m \<le> fst (snd g) \<and> fst (snd g) \<le> snd (snd g)))"
proof (intro impI)
  assume a: "header_stage t = Some (hm, False) \<and> parse_document t = Some d"
  then have d: "d = build_document t (hm, False)"
    using parse_document_stage [of t "(hm, False)"] by (simp split: if_splits)
  have 1: "articles d = map (article_of t) (article_matches t (m_end hm))"
    by (simp add: d build_document_def Let_def parse_articles_shift)
  from a have "re_search header_flags DOCUMENT_HEADER_PATTERN t = Some hm"
    unfolding header_stage_def by (simp split: option.splits)
  from re_search_bounds [OF this] have "m_end hm \<le> length t" by simp
  with article_matches_spans [of "m_end hm" t] 1
  show "articles d = map (article_of t) (article_matches t (m_end hm)) \<and>
     (\<forall>m \<in> set (article_matches t (m_end hm)).
        m_end hm \<le> m_start m \<and> m_start m < m_end m \<and> m_end m \<le> length t \<and>
        (\<forall>g \<in> set (m_groups m). m_start m \<le> fst (snd g) \<and> fst (snd g) \<le> snd (snd g)))"
    by blast
qed

theorem article_span_discipline_witness:
  "[\<lparr>number = ascii ''2'', content = ascii ''b''\<rparr>] =
     map (article_of seg_full) [(34, St 45 (Some 98) [] [(''content'', 44, 45), (''number'', 40, 41)])] \<and>
   (24::nat) \<le> 34 \<and> slice seg_full 40 41 = ascii ''2'' \<and> slice seg_full 44 45 = ascii ''b''"
proof -
  have e: "m_end (0, St 24 (Some 116) (drop 24 seg_full)
        [(''title'', 23, 24), (''date'', 14, 15), (''number'', 9, 10), (''type'', 0, 5)]) = 24"
    by (simp add: m_end_def)
  from article_span_discipline [of seg_full _ _] header_stage_full parse_document_full
  have "articles \<lparr>document_type = ascii ''Loi a'', official_number = ascii ''1'',
       date = ascii ''2'', title = ascii ''t'',
       articles = [\<lparr>number = ascii ''2'', content = ascii ''b''\<rparr>], category = None\<rparr> =
     map (article_of seg_full) (article_matches seg_full 24)"
    using e by metis
  then have 1: "[\<lparr>number = ascii ''2'', content = ascii ''b''\<rparr>] =
     map (article_of seg_full) [(34, St 45 (Some 98) [] [(''content'', 44, 45), (''number'', 40, 41)])]"
    unfolding article_matches_full by simp
  have 2: "slice seg_full 40 41 = ascii ''2''" "slice seg_full 44 45 = ascii ''b''"
    by (simp_all add: seg_full_def slice_def ascii_def)
  from 1 2 show ?thesis by simp
qed

end
